theory Spec2Isabelle
  imports Complex_Main "HOL-Library.AList"
begin

section \<open>Data model of the reclaim-space dialog\<close>

text \<open>
  The embedding follows \<^verbatim>\<open>src/components/storage/ReclaimSpaceModal.jsx\<close>.
  JavaScript numbers are modelled as exact rationals: byte counts are far below
  \<open>2^53\<close>, and IEEE rounding, NaN and the infinities are not modelled.
  A JavaScript object used as a dictionary is an association list in the order
  of \<^verbatim>\<open>Object.keys\<close>; reading a property of \<^verbatim>\<open>undefined\<close> is the
  error \<open>TypeError\<close>.
\<close>

datatype js_error = TypeError

type_synonym 'a result = "js_error + 'a"

text \<open>
  A device of \<^verbatim>\<open>useOriginalDevices()\<close>: the fields the dialog reads, each the
  \<^verbatim>\<open>.v\<close> of the property of that name.
\<close>

record device =
  name_v :: string
  type_v :: string
  total_v :: rat
  free_v :: rat
  parents_v :: "string list"
  children_v :: "string list"

type_synonym devices = "(string \<times> device) list"

text \<open>
  An action is the object \<^verbatim>\<open>{ type: action, value }\<close> pushed by \<^verbatim>\<open>onAction\<close>.
  The parameter \<^verbatim>\<open>value\<close> defaults to the empty string, which is what a remove
  action carries; arithmetic reads the empty string as \<open>0\<close>.
\<close>

datatype action_type = Remove | Shrink

datatype action_value = EmptyString | Number rat

record action =
  type_a :: action_type
  value_a :: action_value

fun ToNumber :: "action_value \<Rightarrow> rat" where
  "ToNumber EmptyString = 0"
| "ToNumber (Number n) = n"

type_synonym unapplied = "(string \<times> action list) list"

subsection \<open>The staged actions: construction, \<^verbatim>\<open>onAction\<close>, \<^verbatim>\<open>onUndo\<close>\<close>

text \<open>
  \<^verbatim>\<open>Object.keys(devices).reduce((acc, device) => { acc[device] = []; return acc }, {})\<close>
\<close>

definition initialUnappliedActions :: "devices \<Rightarrow> unapplied" where
  "initialUnappliedActions devs =
     foldl (\<lambda>acc d. AList.update d [] acc) [] (map fst devs)"

text \<open>
  \<^verbatim>\<open>_unappliedActions[device.name.v].push({ type: action, value })\<close>: the updater
  throws when the name is no key, and the state is then left as it was.
\<close>

definition onAction :: "unapplied \<Rightarrow> string \<Rightarrow> action_type \<Rightarrow> action_value \<Rightarrow> unapplied result" where
  "onAction prev d a v =
     (case map_of prev d of
        None \<Rightarrow> Inl TypeError
      | Some acts \<Rightarrow> Inr (AList.update d (acts @ [\<lparr>type_a = a, value_a = v\<rparr>]) prev))"

text \<open>
  \<^verbatim>\<open>_unappliedActions[device.name.v].pop()\<close>: \<^verbatim>\<open>pop\<close> on an empty array removes
  nothing and raises nothing.
\<close>

definition onUndo :: "unapplied \<Rightarrow> string \<Rightarrow> unapplied result" where
  "onUndo prev d =
     (case map_of prev d of
        None \<Rightarrow> Inl TypeError
      | Some acts \<Rightarrow> Inr (AList.update d (butlast acts) prev))"

subsection \<open>Ancestors of a device\<close>

text \<open>
  Modelled from the spec: \<^verbatim>\<open>getDeviceAncestors\<close> of \<^verbatim>\<open>helpers/storage.js\<close>, which
  is not among the sources. The spec's \<^verbatim>\<open>ancestorsOf(name)\<close> walks \<^verbatim>\<open>parents\<close>
  transitively, nearest first, and stops at names it has already visited, so it
  terminates on a malformed (cyclic) snapshot too. A name that is no key of the
  snapshot has no parents.
\<close>

definition parents_of :: "devices \<Rightarrow> string \<Rightarrow> string list" where
  "parents_of devs d = (case map_of devs d of None \<Rightarrow> [] | Some dev \<Rightarrow> parents_v dev)"

function walk_parents :: "devices \<Rightarrow> string list \<Rightarrow> string list \<Rightarrow> string list" where
  "walk_parents devs [] visited = visited"
| "walk_parents devs (x # todo) visited =
     (if x \<in> set visited then walk_parents devs todo visited
      else walk_parents devs (parents_of devs x @ todo) (visited @ [x]))"
  by pat_completeness auto

lemma parents_of_unknown:
  assumes "d \<notin> fst ` set devs"
  shows "parents_of devs d = []"
proof -
  from assms have "map_of devs d = None"
    by (simp add: map_of_eq_None_iff)
  then show ?thesis
    by (simp add: parents_of_def)
qed

lemma card_unvisited_less:
  assumes "x \<in> fst ` set devs" and "x \<notin> set visited"
  shows "card (fst ` set devs - set (visited @ [x])) < card (fst ` set devs - set visited)"
proof -
  have "fst ` set devs - set (visited @ [x]) \<subset> fst ` set devs - set visited"
    using assms by auto
  moreover have "finite (fst ` set devs - set visited)"
    by simp
  ultimately show ?thesis
    by (rule psubset_card_mono [rotated])
qed

lemma card_unvisited_same:
  assumes "x \<notin> fst ` set devs"
  shows "card (fst ` set devs - set (visited @ [x])) = card (fst ` set devs - set visited)"
proof -
  have "fst ` set devs - set (visited @ [x]) = fst ` set devs - set visited"
    using assms by auto
  then show ?thesis
    by simp
qed

termination walk_parents
proof (relation "measures [\<lambda>(devs, todo, visited). card (fst ` set devs - set visited),
                            \<lambda>(devs, todo, visited). length todo]")
  show "wf (measures [\<lambda>(devs, todo, visited). card (fst ` set devs - set visited),
                            \<lambda>(devs :: devices, todo :: string list, visited :: string list). length todo])"
    by simp
next
  fix devs :: devices and x :: string and todo visited :: "string list"
  assume "x \<in> set visited"
  then show "((devs, todo, visited), (devs, x # todo, visited))
      \<in> measures [\<lambda>(devs, todo, visited). card (fst ` set devs - set visited),
                            \<lambda>(devs, todo, visited). length todo]"
    by simp
next
  fix devs :: devices and x :: string and todo visited :: "string list"
  assume new: "x \<notin> set visited"
  show "((devs, parents_of devs x @ todo, visited @ [x]), (devs, x # todo, visited))
      \<in> measures [\<lambda>(devs, todo, visited). card (fst ` set devs - set visited),
                            \<lambda>(devs, todo, visited). length todo]"
  proof (cases "x \<in> fst ` set devs")
    case True
    then show ?thesis
      using card_unvisited_less [OF True new] by simp
  next
    case False
    then show ?thesis
      using card_unvisited_same [OF False, of visited] parents_of_unknown [OF False] by simp
  qed
qed

definition getDeviceAncestors :: "devices \<Rightarrow> string \<Rightarrow> string list" where
  "getDeviceAncestors devs d = walk_parents devs (parents_of devs d) []"

subsection \<open>Array methods over callbacks that may throw\<close>

definition bind_r :: "'a result \<Rightarrow> ('a \<Rightarrow> 'b result) \<Rightarrow> 'b result" where
  "bind_r m f = (case m of Inl e \<Rightarrow> Inl e | Inr x \<Rightarrow> f x)"

text \<open>\<^verbatim>\<open>xs.some(p)\<close> stops at the first element for which \<open>p\<close> holds.\<close>

fun some_r :: "('a \<Rightarrow> bool result) \<Rightarrow> 'a list \<Rightarrow> bool result" where
  "some_r p [] = Inr False"
| "some_r p (x # xs) = bind_r (p x) (\<lambda>b. if b then Inr True else some_r p xs)"

fun filter_r :: "('a \<Rightarrow> bool result) \<Rightarrow> 'a list \<Rightarrow> 'a list result" where
  "filter_r p [] = Inr []"
| "filter_r p (x # xs) =
     bind_r (p x) (\<lambda>b. bind_r (filter_r p xs) (\<lambda>ys. Inr (if b then x # ys else ys)))"

fun reduce_r :: "('b \<Rightarrow> 'a \<Rightarrow> 'b result) \<Rightarrow> 'a list \<Rightarrow> 'b \<Rightarrow> 'b result" where
  "reduce_r f [] acc = Inr acc"
| "reduce_r f (x # xs) acc = bind_r (f acc x) (reduce_r f xs)"

subsection \<open>\<^verbatim>\<open>getReclaimableSpaceFromAction\<close>\<close>

text \<open>
  \<^verbatim>\<open>unappliedActions[device].map(_action => _action.type).includes("remove")\<close>
\<close>

definition isDeviceRemoved :: "unapplied \<Rightarrow> string \<Rightarrow> bool result" where
  "isDeviceRemoved ua d =
     (case map_of ua d of
        None \<Rightarrow> Inl TypeError
      | Some acts \<Rightarrow> Inr (Remove \<in> set (map type_a acts)))"

definition isDeviceResized :: "unapplied \<Rightarrow> string \<Rightarrow> bool result" where
  "isDeviceResized ua d =
     (case map_of ua d of
        None \<Rightarrow> Inl TypeError
      | Some acts \<Rightarrow> Inr (Shrink \<in> set (map type_a acts)))"

definition isDeviceParentRemoved :: "devices \<Rightarrow> unapplied \<Rightarrow> string \<Rightarrow> bool result" where
  "isDeviceParentRemoved devs ua d = some_r (isDeviceRemoved ua) (getDeviceAncestors devs d)"

text \<open>
  The two filters, \<^verbatim>\<open>isDeviceRemoved(device) && !isDeviceParentRemoved(device)\<close> and
  \<^verbatim>\<open>isDeviceResized(device) && !isDeviceParentRemoved(device)\<close>: the right operand
  is evaluated only when the left one holds.
\<close>

definition and_not_parent_removed ::
  "devices \<Rightarrow> unapplied \<Rightarrow> bool result \<Rightarrow> string \<Rightarrow> bool result" where
  "and_not_parent_removed devs ua left d =
     bind_r left (\<lambda>b. if b then bind_r (isDeviceParentRemoved devs ua d) (\<lambda>r. Inr (\<not> r))
                       else Inr False)"

text \<open>\<^verbatim>\<open>acc + devices[device].total.v - devices[device].free.v\<close>\<close>

definition add_used :: "devices \<Rightarrow> rat \<Rightarrow> string \<Rightarrow> rat result" where
  "add_used devs acc d =
     (case map_of devs d of
        None \<Rightarrow> Inl TypeError
      | Some dev \<Rightarrow> Inr (acc + total_v dev - free_v dev))"

text \<open>
  \<^verbatim>\<open>acc + devices[device].total.v - action.value\<close>, for every action of the device's
  sequence, whatever its type.
\<close>

definition add_shrunk :: "devices \<Rightarrow> string \<Rightarrow> rat \<Rightarrow> action \<Rightarrow> rat result" where
  "add_shrunk devs d acc a =
     (case map_of devs d of
        None \<Rightarrow> Inl TypeError
      | Some dev \<Rightarrow> Inr (acc + total_v dev - ToNumber (value_a a)))"

definition add_device_shrunk :: "devices \<Rightarrow> unapplied \<Rightarrow> rat \<Rightarrow> string \<Rightarrow> rat result" where
  "add_device_shrunk devs ua acc d =
     (case map_of ua d of
        None \<Rightarrow> Inl TypeError
      | Some acts \<Rightarrow> bind_r (reduce_r (add_shrunk devs d) acts 0) (\<lambda>s. Inr (acc + s)))"

fun getReclaimableSpaceFromAction :: "action_type \<Rightarrow> devices \<Rightarrow> unapplied \<Rightarrow> rat result" where
  "getReclaimableSpaceFromAction Remove devs ua =
     bind_r (filter_r (\<lambda>d. and_not_parent_removed devs ua (isDeviceRemoved ua d) d) (map fst ua))
       (\<lambda>ds. reduce_r (add_used devs) ds 0)"
| "getReclaimableSpaceFromAction Shrink devs ua =
     bind_r (filter_r (\<lambda>d. and_not_parent_removed devs ua (isDeviceResized ua d) d) (map fst ua))
       (\<lambda>ds. reduce_r (add_device_shrunk devs ua) ds 0)"

declare getReclaimableSpaceFromAction.simps [simp del]

subsection \<open>\<^verbatim>\<open>ReclaimFooter\<close>\<close>




subsection \<open>\<^verbatim>\<open>ShrinkPopover\<close>\<close>

text \<open>\<^verbatim>\<open>Math.round\<close> rounds to the nearest integer, a tie towards \<open>+\<infinity>\<close>.\<close>

definition Math_round :: "rat \<Rightarrow> rat" where
  "Math_round x = of_int \<lfloor>x + 1 / 2\<rfloor>"

text \<open>
  The slider's \<^verbatim>\<open>onChange(_, sliderValue, inputValue)\<close>, as a function from the
  popover's current \<^verbatim>\<open>value\<close> to its next one. \<open>unitMult\<close> is
  \<^verbatim>\<open>unitMultiplier[originalUnit]\<close>, a table of \<^verbatim>\<open>helpers/storage.js\<close>; an argument
  that is \<^verbatim>\<open>undefined\<close> is \<open>None\<close>.

  The arithmetic is exact here, over the rationals; the source computes in IEEE
  doubles, which round the quotient and the product before \<^verbatim>\<open>Math.round\<close> and
  \<^verbatim>\<open>Math.min\<close> see them. The two agree wherever every intermediate result is a double,
  as for a typed integer below \<open>2\<^sup>5\<^sup>3\<close> under the unit multiplier 1, and may
  differ elsewhere: slider position 57 on a device of 50 bytes is \<open>28.499999999999996\<close> in
  doubles, which the source rounds to 28, and \<open>57 / 2\<close> here, which rounds to 29.
  Infinities and \<^verbatim>\<open>NaN\<close> are not numbers of this model.
\<close>

definition ShrinkPopover_onChange ::
  "device \<Rightarrow> rat \<Rightarrow> rat option \<Rightarrow> rat option \<Rightarrow> rat \<Rightarrow> rat" where
  "ShrinkPopover_onChange dev unitMult sliderValue inputValue cur =
     (case inputValue of
        Some iv \<Rightarrow> min (total_v dev) (iv * unitMult)
      | None \<Rightarrow>
          (case sliderValue of
             Some sv \<Rightarrow> Math_round ((sv / 100) * total_v dev)
           | None \<Rightarrow> cur))"

text \<open>\<^verbatim>\<open>isDisabled={value === 0 || value === device.total.v}\<close> of the "Resize" button.\<close>

definition resizeIsDisabled :: "device \<Rightarrow> rat \<Rightarrow> bool" where
  "resizeIsDisabled dev v = (v = 0 \<or> v = total_v dev)"

text \<open>
  The values the popover's state can hold: \<^verbatim>\<open>useState(device.total.v)\<close>, then any
  number of changes, with any unit multiplier, slider position and typed number. This
  covers what the source's doubles produce, whichever way they round: \<^verbatim>\<open>Math.min\<close>
  returns a number that is at most the total, \<^verbatim>\<open>Math.round\<close> an integer, and each of
  these is a value of this predicate (lemmas \<open>popover_value_below_total\<close> and
  \<open>popover_value_integer\<close>).
\<close>

inductive popover_value :: "device \<Rightarrow> rat \<Rightarrow> bool" for dev :: device where
  popover_initial: "popover_value dev (total_v dev)"
| popover_change:
    "popover_value dev cur \<Longrightarrow>
     popover_value dev (ShrinkPopover_onChange dev unitMult sliderValue inputValue cur)"

subsection \<open>\<^verbatim>\<open>onReclaim\<close>\<close>












subsection \<open>\<^verbatim>\<open>DeviceActions\<close> and the controls it renders\<close>

text \<open>\<^verbatim>\<open>unappliedActions[device].find(action => action.type === type)\<close>\<close>

definition getDeviceActionOfType :: "string \<Rightarrow> action_type \<Rightarrow> unapplied \<Rightarrow> action option result" where
  "getDeviceActionOfType d t ua =
     (case map_of ua d of
        None \<Rightarrow> Inl TypeError
      | Some acts \<Rightarrow> Inr (find (\<lambda>a. type_a a = t) acts))"

text \<open>What a component renders: nothing, a text, or a button with its \<^verbatim>\<open>isDisabled\<close>.\<close>

datatype shrink_control = NoShrink | ShrinkText action_value | ShrinkButton bool

datatype delete_control = NoDelete | DeleteText | DeleteButton bool

record controls =
  shrinkControl :: shrink_control
  deleteControl :: delete_control
  undoButton :: bool

text \<open>A value is truthy unless it is \<^verbatim>\<open>undefined\<close>, the empty string or \<open>0\<close>.\<close>

fun truthy :: "action_value option \<Rightarrow> bool" where
  "truthy None = False"
| "truthy (Some EmptyString) = False"
| "truthy (Some (Number n)) = (n \<noteq> 0)"

text \<open>
  \<^verbatim>\<open>DeviceActionDelete\<close>: \<^verbatim>\<open>null\<close> once a shrink is staged; the text (the empty
  string for a disk) once the device or a parent is removed; else the button, disabled
  for a disk without partitions.
\<close>

definition DeviceActionDelete :: "device \<Rightarrow> bool \<Rightarrow> action_value option \<Rightarrow> delete_control" where
  "DeviceActionDelete dev hasBeenRemoved newDeviceSize =
     (if newDeviceSize \<noteq> None then NoDelete
      else if hasBeenRemoved then (if type_v dev \<noteq> ''disk'' then DeleteText else NoDelete)
      else DeleteButton (type_v dev = ''disk'' \<and> children_v dev = []))"

text \<open>
  \<^verbatim>\<open>DeviceActionShrink\<close>; \<open>isDeviceShrinkable\<close> is the state of the hook
  \<^verbatim>\<open>useIsDeviceShrinkable\<close>, \<^verbatim>\<open>undefined\<close> until the query has answered.
\<close>

definition DeviceActionShrink ::
  "device \<Rightarrow> bool \<Rightarrow> action_value option \<Rightarrow> bool option \<Rightarrow> shrink_control" where
  "DeviceActionShrink dev hasBeenRemoved newDeviceSize isDeviceShrinkable =
     (if hasBeenRemoved then NoShrink
      else if truthy newDeviceSize
        then (case newDeviceSize of Some v \<Rightarrow> ShrinkText v | None \<Rightarrow> NoShrink)
      else if type_v dev \<noteq> ''disk'' then ShrinkButton (isDeviceShrinkable \<noteq> Some True)
      else NoShrink)"

definition has_action_of_type :: "action_type \<Rightarrow> unapplied \<Rightarrow> string \<Rightarrow> bool result" where
  "has_action_of_type t ua d = bind_r (getDeviceActionOfType d t ua) (\<lambda>a. Inr (a \<noteq> None))"

text \<open>
  \<^verbatim>\<open>DeviceActions\<close>: \<open>None\<close> is the \<^verbatim>\<open>return null\<close> of \<^verbatim>\<open>level > 1\<close>. The operators
  \<^verbatim>\<open>||\<close> and \<^verbatim>\<open>&&\<close> evaluate their right operand only when the left one does not
  decide.
\<close>

definition DeviceActions :: "device \<Rightarrow> nat \<Rightarrow> unapplied \<Rightarrow> bool option \<Rightarrow> controls option result" where
  "DeviceActions dev level ua isDeviceShrinkable =
     (if level > 1 then Inr None
      else
        bind_r (some_r (has_action_of_type Remove ua) (parents_v dev)) (\<lambda>parentHasRemove.
        bind_r (if parentHasRemove then Inr True
                else has_action_of_type Remove ua (name_v dev)) (\<lambda>hasBeenRemoved.
        bind_r (getDeviceActionOfType (name_v dev) Shrink ua) (\<lambda>shrinkAction.
        bind_r (if parentHasRemove then Inr False
                else (case map_of ua (name_v dev) of
                        None \<Rightarrow> Inl TypeError
                      | Some acts \<Rightarrow> Inr (length acts > 0))) (\<lambda>hasUnappliedActions.
          let newDeviceSize = map_option value_a shrinkAction
          in Inr (Some \<lparr>shrinkControl =
                           DeviceActionShrink dev hasBeenRemoved newDeviceSize isDeviceShrinkable,
                         deleteControl = DeviceActionDelete dev hasBeenRemoved newDeviceSize,
                         undoButton = hasUnappliedActions\<rparr>))))))"

subsection \<open>The rows of the table and the events of a session\<close>

text \<open>
  \<^verbatim>\<open>getDeviceRow\<close> makes a row for each selected disk at level \<open>0\<close> and, below a row,
  a row for each child at the next level.
\<close>

inductive device_row :: "devices \<Rightarrow> string list \<Rightarrow> string \<Rightarrow> nat \<Rightarrow> bool"
  for devs :: devices and selectedDisks :: "string list" where
  row_disk: "disk \<in> set selectedDisks \<Longrightarrow> device_row devs selectedDisks disk 0"
| row_child:
    "device_row devs selectedDisks d level \<Longrightarrow> map_of devs d = Some dev \<Longrightarrow>
     c \<in> set (children_v dev) \<Longrightarrow> device_row devs selectedDisks c (Suc level)"

text \<open>
  One event of the dialog: a click on an enabled control of a row. The state of the
  shrinkability hook is left open, and each updater runs once.
\<close>

inductive ui_step :: "devices \<Rightarrow> string list \<Rightarrow> unapplied \<Rightarrow> unapplied \<Rightarrow> bool"
  for devs :: devices and selectedDisks :: "string list" where
  click_delete:
    "device_row devs selectedDisks disk level \<Longrightarrow> map_of devs disk = Some dev \<Longrightarrow>
     DeviceActions dev level ua isDeviceShrinkable = Inr (Some c) \<Longrightarrow>
     deleteControl c = DeleteButton False \<Longrightarrow>
     onAction ua (name_v dev) Remove EmptyString = Inr ua' \<Longrightarrow>
     ui_step devs selectedDisks ua ua'"
| click_resize:
    "device_row devs selectedDisks disk level \<Longrightarrow> map_of devs disk = Some dev \<Longrightarrow>
     DeviceActions dev level ua isDeviceShrinkable = Inr (Some c) \<Longrightarrow>
     shrinkControl c = ShrinkButton False \<Longrightarrow>
     popover_value dev v \<Longrightarrow> \<not> resizeIsDisabled dev v \<Longrightarrow>
     onAction ua (name_v dev) Shrink (Number v) = Inr ua' \<Longrightarrow>
     ui_step devs selectedDisks ua ua'"
| click_undo:
    "device_row devs selectedDisks disk level \<Longrightarrow> map_of devs disk = Some dev \<Longrightarrow>
     DeviceActions dev level ua isDeviceShrinkable = Inr (Some c) \<Longrightarrow>
     undoButton c \<Longrightarrow>
     onUndo ua (name_v dev) = Inr ua' \<Longrightarrow>
     ui_step devs selectedDisks ua ua'"

definition ui_reachable :: "devices \<Rightarrow> string list \<Rightarrow> unapplied \<Rightarrow> bool" where
  "ui_reachable devs selectedDisks ua =
     (ui_step devs selectedDisks)\<^sup>*\<^sup>* (initialUnappliedActions devs) ua"

subsection \<open>The derived state, in the words of the specification\<close>

text \<open>
  The snapshot is well formed when its keys are distinct, every device is listed under
  its own name, and every parent is a key.
\<close>

definition wf_devices :: "devices \<Rightarrow> bool" where
  "wf_devices devs =
     (distinct (map fst devs) \<and>
      list_all (\<lambda>(k, dev). name_v dev = k \<and> list_all (\<lambda>p. p \<in> fst ` set devs) (parents_v dev)) devs)"

definition has_remove :: "unapplied \<Rightarrow> string \<Rightarrow> bool" where
  "has_remove ua d = (case map_of ua d of None \<Rightarrow> False | Some acts \<Rightarrow> Remove \<in> set (map type_a acts))"

text \<open>
  A device is effectively removed if it has a remove action or any ancestor,
  transitively through \<^verbatim>\<open>parents\<close>, is effectively removed.
\<close>

inductive effectively_removed :: "devices \<Rightarrow> unapplied \<Rightarrow> string \<Rightarrow> bool"
  for devs :: devices and ua :: unapplied where
  removed_itself: "has_remove ua d \<Longrightarrow> effectively_removed devs ua d"
| removed_with_parent:
    "p \<in> set (parents_of devs d) \<Longrightarrow> effectively_removed devs ua p \<Longrightarrow>
     effectively_removed devs ua d"

definition used_bytes :: "devices \<Rightarrow> string \<Rightarrow> rat" where
  "used_bytes devs d = (case map_of devs d of None \<Rightarrow> 0 | Some dev \<Rightarrow> total_v dev - free_v dev)"

definition total_bytes :: "devices \<Rightarrow> string \<Rightarrow> rat" where
  "total_bytes devs d = (case map_of devs d of None \<Rightarrow> 0 | Some dev \<Rightarrow> total_v dev)"

definition actions_of :: "unapplied \<Rightarrow> string \<Rightarrow> action list" where
  "actions_of ua d = (case map_of ua d of None \<Rightarrow> [] | Some acts \<Rightarrow> acts)"

text \<open>
  \<^verbatim>\<open>reclaimedBytes(remove)\<close>: over the devices that are effectively removed and whose
  nearest ancestors (their parents) are not, the sum of total minus free.
\<close>

definition reclaimedBytes_remove :: "devices \<Rightarrow> unapplied \<Rightarrow> rat" where
  "reclaimedBytes_remove devs ua =
     (\<Sum>d \<leftarrow> filter (\<lambda>d. effectively_removed devs ua d \<and>
                          \<not> (\<exists>p \<in> set (parents_of devs d). effectively_removed devs ua p))
                  (map fst ua).
        used_bytes devs d)"



subsection \<open>Notions used in the statements\<close>

text \<open>The relation of a device to each of its parents.\<close>

definition parent_rel :: "devices \<Rightarrow> (string \<times> string) set" where
  "parent_rel devs = {(d, p). p \<in> set (parents_of devs d)}"

text \<open>Some action of the device's sequence is a shrink.\<close>

definition has_shrink :: "unapplied \<Rightarrow> string \<Rightarrow> bool" where
  "has_shrink ua d = (Shrink \<in> set (map type_a (actions_of ua d)))"

text \<open>Some ancestor of the device has a remove action of its own.\<close>

definition ancestor_removed :: "devices \<Rightarrow> unapplied \<Rightarrow> string \<Rightarrow> bool" where
  "ancestor_removed devs ua d = (\<exists>a \<in> set (getDeviceAncestors devs d). has_remove ua a)"

text \<open>Total minus value, summed over every action of the device's sequence.\<close>

definition all_actions_sum :: "devices \<Rightarrow> unapplied \<Rightarrow> string \<Rightarrow> rat" where
  "all_actions_sum devs ua d =
     (\<Sum>a \<leftarrow> actions_of ua d. total_bytes devs d - ToNumber (value_a a))"



text \<open>
  The constants \<^verbatim>\<open>parentHasRemove\<close> and \<^verbatim>\<open>newDeviceSize\<close> of \<^verbatim>\<open>DeviceActions\<close>, when no
  lookup fails.
\<close>

definition parentHasRemove :: "unapplied \<Rightarrow> device \<Rightarrow> bool" where
  "parentHasRemove ua dev = (\<exists>p \<in> set (parents_v dev). has_remove ua p)"

definition newDeviceSize :: "unapplied \<Rightarrow> device \<Rightarrow> action_value option" where
  "newDeviceSize ua dev =
     map_option value_a (find (\<lambda>a. type_a a = Shrink) (actions_of ua (name_v dev)))"



text \<open>
  Three invariants of a session: only devices with a row at level 0 or 1 have staged
  actions; no disk without children has a remove action; every sequence holds at most
  one action, and a staged shrink has a truthy value.
\<close>

definition staged_on_rows :: "devices \<Rightarrow> string list \<Rightarrow> unapplied \<Rightarrow> bool" where
  "staged_on_rows devs selectedDisks ua =
     (\<forall>d acts. map_of ua d = Some acts \<and> acts \<noteq> [] \<longrightarrow>
        (\<exists>level \<le> 1. device_row devs selectedDisks d level))"

definition bare_disks_kept :: "devices \<Rightarrow> unapplied \<Rightarrow> bool" where
  "bare_disks_kept devs ua =
     (\<forall>d dev. map_of devs d = Some dev \<and> type_v dev = ''disk'' \<and> children_v dev = [] \<longrightarrow>
        \<not> has_remove ua d)"


subsection \<open>Example snapshots and staged actions\<close>

text \<open>
  The scenario of the specification: the disk \<^verbatim>\<open>sda\<close> (total 100, free 20) with its one
  partition \<^verbatim>\<open>sda1\<close> (total 80, free 20).
\<close>

definition sda :: device where
  "sda = \<lparr>name_v = ''sda'', type_v = ''disk'', total_v = 100, free_v = 20,
           parents_v = [], children_v = [''sda1'']\<rparr>"

definition sda1 :: device where
  "sda1 = \<lparr>name_v = ''sda1'', type_v = ''partition'', total_v = 80, free_v = 20,
            parents_v = [''sda''], children_v = []\<rparr>"

definition scenario_devices :: devices where
  "scenario_devices = [(''sda'', sda), (''sda1'', sda1)]"

definition remove_action :: action where
  "remove_action = \<lparr>type_a = Remove, value_a = EmptyString\<rparr>"

definition shrink_action :: "rat \<Rightarrow> action" where
  "shrink_action v = \<lparr>type_a = Shrink, value_a = Number v\<rparr>"

text \<open>The scenario with a second disk that has no partitions.\<close>

definition sdb :: device where
  "sdb = \<lparr>name_v = ''sdb'', type_v = ''disk'', total_v = 200, free_v = 200,
           parents_v = [], children_v = []\<rparr>"

definition two_disks :: devices where
  "two_disks = [(''sda'', sda), (''sda1'', sda1), (''sdb'', sdb)]"







text \<open>A volume group on a partition of one disk and on the whole of another.\<close>

definition sdc :: device where
  "sdc = \<lparr>name_v = ''sdc'', type_v = ''disk'', total_v = 500, free_v = 0,
           parents_v = [], children_v = [''sdc1'']\<rparr>"

definition sdc1 :: device where
  "sdc1 = \<lparr>name_v = ''sdc1'', type_v = ''partition'', total_v = 500, free_v = 0,
            parents_v = [''sdc''], children_v = [''vg0'']\<rparr>"

definition sdd :: device where
  "sdd = \<lparr>name_v = ''sdd'', type_v = ''disk'', total_v = 500, free_v = 0,
           parents_v = [], children_v = [''vg0'']\<rparr>"

definition vg0 :: device where
  "vg0 = \<lparr>name_v = ''vg0'', type_v = ''lvmvg'', total_v = 1000, free_v = 400,
           parents_v = [''sdc1'', ''sdd''], children_v = []\<rparr>"

definition lvm_devices :: devices where
  "lvm_devices = [(''sdc'', sdc), (''sdc1'', sdc1), (''sdd'', sdd), (''vg0'', vg0)]"

section \<open>Properties of the staged actions\<close>

lemma onAction_known:
  "map_of prev d = Some acts \<Longrightarrow>
   onAction prev d a v = Inr (AList.update d (acts @ [\<lparr>type_a = a, value_a = v\<rparr>]) prev)"
  by (simp add: onAction_def)

lemma onUndo_known:
  "map_of prev d = Some acts \<Longrightarrow> onUndo prev d = Inr (AList.update d (butlast acts) prev)"
  by (simp add: onUndo_def)

lemma update_known_keys:
  "map_of al k = Some v \<Longrightarrow> map fst (AList.update k w al) = map fst al"
  by (simp add: update_keys map_of_eq_None_iff [symmetric])

section \<open>The walk over the parents visits exactly the ancestors\<close>

lemma walk_keeps_visited: "set visited \<subseteq> set (walk_parents devs todo visited)"
  by (induction devs todo visited rule: walk_parents.induct) auto

lemma walk_visits_todo: "set todo \<subseteq> set (walk_parents devs todo visited)"
proof (induction devs todo visited rule: walk_parents.induct)
  case (1 devs visited)
  then show ?case by simp
next
  case (2 devs x todo visited)
  show ?case
  proof (cases "x \<in> set visited")
    case True
    with 2 walk_keeps_visited [of visited devs todo] show ?thesis by auto
  next
    case False
    with 2 walk_keeps_visited [of "visited @ [x]" devs "parents_of devs x @ todo"] show ?thesis
      by auto
  qed
qed

lemma walk_sound:
  "set (walk_parents devs todo visited) \<subseteq> set visited \<union> (parent_rel devs)\<^sup>* `` set todo"
proof (induction devs todo visited rule: walk_parents.induct)
  case (1 devs visited)
  then show ?case by simp
next
  case (2 devs x todo visited)
  show ?case
  proof (cases "x \<in> set visited")
    case True
    with 2 show ?thesis by auto
  next
    case False
    have step: "(parent_rel devs)\<^sup>* `` set (parents_of devs x @ todo)
        \<subseteq> (parent_rel devs)\<^sup>* `` set (x # todo)"
    proof
      fix y assume "y \<in> (parent_rel devs)\<^sup>* `` set (parents_of devs x @ todo)"
      then obtain z where z: "z \<in> set (parents_of devs x @ todo)" "(z, y) \<in> (parent_rel devs)\<^sup>*"
        by auto
      show "y \<in> (parent_rel devs)\<^sup>* `` set (x # todo)"
      proof (cases "z \<in> set todo")
        case True
        with z show ?thesis by auto
      next
        case False
        with z have "(x, z) \<in> parent_rel devs" by (simp add: parent_rel_def)
        with z have "(x, y) \<in> (parent_rel devs)\<^sup>*" by (meson converse_rtrancl_into_rtrancl)
        then show ?thesis by auto
      qed
    qed
    from 2 False have "set (walk_parents devs (x # todo) visited)
        \<subseteq> set (visited @ [x]) \<union> (parent_rel devs)\<^sup>* `` set (parents_of devs x @ todo)"
      by simp
    also have "\<dots> \<subseteq> set visited \<union> (parent_rel devs)\<^sup>* `` set (x # todo)"
      using step by auto
    finally show ?thesis .
  qed
qed

lemma walk_closed:
  assumes "\<And>v. v \<in> set visited \<Longrightarrow> set (parents_of devs v) \<subseteq> set visited \<union> set todo"
    and "y \<in> set (walk_parents devs todo visited)"
  shows "set (parents_of devs y) \<subseteq> set (walk_parents devs todo visited)"
  using assms
proof (induction devs todo visited rule: walk_parents.induct)
  case (1 devs visited)
  then show ?case by auto
next
  case (2 devs x todo visited)
  show ?case
  proof (cases "x \<in> set visited")
    case True
    have "set (parents_of devs y) \<subseteq> set (walk_parents devs todo visited)"
    proof (rule 2(1) [OF True])
      fix v assume "v \<in> set visited"
      with 2(3) [of v] True show "set (parents_of devs v) \<subseteq> set visited \<union> set todo" by auto
    next
      from 2(4) True show "y \<in> set (walk_parents devs todo visited)" by simp
    qed
    with True show ?thesis by simp
  next
    case False
    have "set (parents_of devs y) \<subseteq> set (walk_parents devs (parents_of devs x @ todo) (visited @ [x]))"
    proof (rule 2(2) [OF False])
      fix v assume "v \<in> set (visited @ [x])"
      with 2(3) [of v] show "set (parents_of devs v)
          \<subseteq> set (visited @ [x]) \<union> set (parents_of devs x @ todo)" by auto
    next
      from 2(4) False show "y \<in> set (walk_parents devs (parents_of devs x @ todo) (visited @ [x]))"
        by simp
    qed
    with False show ?thesis by simp
  qed
qed

lemma ancestors_trancl:
  "set (getDeviceAncestors devs d) = {a. (d, a) \<in> (parent_rel devs)\<^sup>+}"
proof (intro equalityI subsetI)
  fix a assume "a \<in> set (getDeviceAncestors devs d)"
  then have "a \<in> (parent_rel devs)\<^sup>* `` set (parents_of devs d)"
    using walk_sound [of devs "parents_of devs d" "[]"] by (auto simp: getDeviceAncestors_def)
  then obtain p where "p \<in> set (parents_of devs d)" "(p, a) \<in> (parent_rel devs)\<^sup>*"
    by auto
  then have "(d, p) \<in> parent_rel devs" "(p, a) \<in> (parent_rel devs)\<^sup>*"
    by (simp_all add: parent_rel_def)
  then show "a \<in> {a. (d, a) \<in> (parent_rel devs)\<^sup>+}"
    by simp
next
  fix a assume "a \<in> {a. (d, a) \<in> (parent_rel devs)\<^sup>+}"
  then have "(d, a) \<in> (parent_rel devs)\<^sup>+" by simp
  then show "a \<in> set (getDeviceAncestors devs d)"
  proof (induction rule: trancl_induct)
    case (base p)
    then show ?case
      using walk_visits_todo [of "parents_of devs d" devs "[]"]
      by (auto simp: getDeviceAncestors_def parent_rel_def)
  next
    case (step p q)
    have "set (parents_of devs p) \<subseteq> set (walk_parents devs (parents_of devs d) [])"
      by (rule walk_closed) (use step in \<open>auto simp: getDeviceAncestors_def\<close>)
    with step show ?case
      by (auto simp: getDeviceAncestors_def parent_rel_def)
  qed
qed

section \<open>Append followed by undo\<close>

text \<open>
  C6. For every state of the staged actions, every device \<open>d\<close> that is a key and
  every action, \<^verbatim>\<open>onAction\<close> on \<open>d\<close> followed at once by \<^verbatim>\<open>onUndo\<close> on \<open>d\<close> gives
  back the very state it started from. Whether a device is effectively removed or
  shrunk, its shrink target and both reclaimed totals are functions of the devices
  and of this state, so they are what they were before the append.
\<close>

theorem append_undo_round_trip:
  assumes "map_of ua d = Some acts"
  shows "\<exists>ua' ua''. onAction ua d k v = Inr ua' \<and> onUndo ua' d = Inr ua'' \<and> ua'' = ua \<and>
           getReclaimableSpaceFromAction Remove devs ua'' =
             getReclaimableSpaceFromAction Remove devs ua \<and>
           getReclaimableSpaceFromAction Shrink devs ua'' =
             getReclaimableSpaceFromAction Shrink devs ua"
proof -
  let ?a = "\<lparr>type_a = k, value_a = v\<rparr>"
  let ?ua' = "AList.update d (acts @ [?a]) ua"
  have app: "onAction ua d k v = Inr ?ua'"
    using assms by (rule onAction_known)
  have "map_of ?ua' d = Some (acts @ [?a])"
    by (simp add: update_conv')
  then have "onUndo ?ua' d = Inr (AList.update d (butlast (acts @ [?a])) ?ua')"
    by (rule onUndo_known)
  also have "AList.update d (butlast (acts @ [?a])) ?ua' = ua"
    using assms by (simp add: update_triv)
  finally have undo: "onUndo ?ua' d = Inr ua" .
  from app undo show ?thesis
    by simp
qed

theorem append_undo_round_trip_witness:
  "map_of [(''sda'', []), (''sda1'', [])] ''sda1'' = Some ([] :: action list) \<and>
   (\<exists>ua'. onAction [(''sda'', []), (''sda1'', [])] ''sda1'' Shrink (Number 50) = Inr ua' \<and>
          onUndo ua' ''sda1'' = Inr [(''sda'', []), (''sda1'', [])])"
  using append_undo_round_trip [of "[(''sda'', []), (''sda1'', [])]" "''sda1''" "[]" Shrink "Number 50" "[]"]
  by auto

section \<open>The accounting returns, and what it returns\<close>

lemma bind_r_Inr [simp]: "bind_r (Inr x) f = f x"
  by (simp add: bind_r_def)

lemma bind_r_Inl [simp]: "bind_r (Inl e) f = Inl e"
  by (simp add: bind_r_def)

lemma some_r_total:
  assumes "\<And>x. x \<in> set xs \<Longrightarrow> p x = Inr (q x)"
  shows "some_r p xs = Inr (\<exists>x \<in> set xs. q x)"
  using assms by (induction xs) auto

lemma filter_r_total:
  assumes "\<And>x. x \<in> set xs \<Longrightarrow> p x = Inr (q x)"
  shows "filter_r p xs = Inr (filter q xs)"
  using assms by (induction xs) auto

lemma reduce_r_sum:
  fixes g :: "'a \<Rightarrow> rat"
  assumes "\<And>x acc. x \<in> set xs \<Longrightarrow> f acc x = Inr (acc + g x)"
  shows "reduce_r f xs acc = Inr (acc + sum_list (map g xs))"
  using assms by (induction xs arbitrary: acc) (auto simp: add.assoc)

lemma isDeviceRemoved_key:
  assumes "d \<in> fst ` set ua"
  shows "isDeviceRemoved ua d = Inr (has_remove ua d)"
proof -
  from assms obtain acts where "map_of ua d = Some acts"
    by (metis map_of_eq_None_iff not_Some_eq)
  then show ?thesis
    by (simp add: isDeviceRemoved_def has_remove_def)
qed


lemma parent_is_key:
  assumes "wf_devices devs" and "(d, p) \<in> parent_rel devs"
  shows "p \<in> fst ` set devs"
proof -
  from assms(2) have p: "p \<in> set (parents_of devs d)"
    by (simp add: parent_rel_def)
  then obtain dev where dev: "map_of devs d = Some dev" "p \<in> set (parents_v dev)"
    by (cases "map_of devs d") (auto simp: parents_of_def)
  then have "(d, dev) \<in> set devs"
    by (simp add: map_of_SomeD)
  with assms(1) have "list_all (\<lambda>p. p \<in> fst ` set devs) (parents_v dev)"
    by (auto simp: wf_devices_def list_all_iff)
  with dev show ?thesis
    by (simp add: list_all_iff)
qed

lemma ancestor_is_key:
  assumes "wf_devices devs" and "(d, a) \<in> (parent_rel devs)\<^sup>+"
  shows "a \<in> fst ` set devs"
  using assms(2)
  by (cases rule: tranclE) (auto intro: parent_is_key [OF assms(1)])

lemma ancestors_are_keys:
  assumes "wf_devices devs"
  shows "set (getDeviceAncestors devs d) \<subseteq> fst ` set devs"
  using ancestor_is_key [OF assms] by (auto simp: ancestors_trancl)

lemma isDeviceParentRemoved_total:
  assumes "wf_devices devs" and "fst ` set ua = fst ` set devs"
  shows "isDeviceParentRemoved devs ua d = Inr (ancestor_removed devs ua d)"
  unfolding isDeviceParentRemoved_def ancestor_removed_def
proof (rule some_r_total)
  fix a assume "a \<in> set (getDeviceAncestors devs d)"
  with ancestors_are_keys [OF assms(1), of d] assms(2) have "a \<in> fst ` set ua"
    by auto
  then show "isDeviceRemoved ua a = Inr (has_remove ua a)"
    by (rule isDeviceRemoved_key)
qed

lemma remove_filter_total:
  assumes "wf_devices devs" and "fst ` set ua = fst ` set devs"
  shows "filter_r (\<lambda>d. and_not_parent_removed devs ua (isDeviceRemoved ua d) d) (map fst ua) =
         Inr (filter (\<lambda>d. has_remove ua d \<and> \<not> ancestor_removed devs ua d) (map fst ua))"
proof (rule filter_r_total)
  fix d assume "d \<in> set (map fst ua)"
  then have "isDeviceRemoved ua d = Inr (has_remove ua d)"
    by (simp add: isDeviceRemoved_key)
  then show "and_not_parent_removed devs ua (isDeviceRemoved ua d) d =
      Inr (has_remove ua d \<and> \<not> ancestor_removed devs ua d)"
    by (simp add: and_not_parent_removed_def isDeviceParentRemoved_total [OF assms])
qed


lemma add_used_key:
  assumes "d \<in> fst ` set devs"
  shows "add_used devs acc d = Inr (acc + used_bytes devs d)"
proof -
  from assms obtain dev where "map_of devs d = Some dev"
    by (metis map_of_eq_None_iff not_Some_eq)
  then show ?thesis
    by (simp add: add_used_def used_bytes_def)
qed



lemma reclaimable_remove_code:
  assumes "wf_devices devs" and "fst ` set ua = fst ` set devs"
  shows "getReclaimableSpaceFromAction Remove devs ua =
         Inr (\<Sum>d \<leftarrow> filter (\<lambda>d. has_remove ua d \<and> \<not> ancestor_removed devs ua d) (map fst ua).
                used_bytes devs d)"
proof -
  let ?ds = "filter (\<lambda>d. has_remove ua d \<and> \<not> ancestor_removed devs ua d) (map fst ua)"
  have "reduce_r (add_used devs) ?ds 0 = Inr (0 + sum_list (map (used_bytes devs) ?ds))"
  proof (rule reduce_r_sum)
    fix d acc assume "d \<in> set ?ds"
    with assms(2) have "d \<in> fst ` set devs" by auto
    then show "add_used devs acc d = Inr (acc + used_bytes devs d)"
      by (rule add_used_key)
  qed
  then show ?thesis
    by (simp add: getReclaimableSpaceFromAction.simps remove_filter_total [OF assms])
qed


section \<open>Reclaimed space of remove actions\<close>

lemmas scenario_defs =
  scenario_devices_def sda_def sda1_def remove_action_def shrink_action_def

lemma has_remove_eval:
  "has_remove ua d =
     (case map_of ua d of None \<Rightarrow> False | Some acts \<Rightarrow> list_ex (\<lambda>a. type_a a = Remove) acts)"
  by (cases "map_of ua d") (simp_all add: has_remove_def list_ex_iff image_iff, metis)

lemma has_shrink_eval:
  "has_shrink ua d =
     (case map_of ua d of None \<Rightarrow> False | Some acts \<Rightarrow> list_ex (\<lambda>a. type_a a = Shrink) acts)"
  by (cases "map_of ua d") (simp_all add: has_shrink_def actions_of_def list_ex_iff image_iff, metis)

lemmas derived_defs =
  wf_devices_def has_remove_eval has_shrink_eval ancestor_removed_def getDeviceAncestors_def
  parents_of_def used_bytes_def total_bytes_def actions_of_def all_actions_sum_def

lemma effectively_removed_rtrancl:
  "effectively_removed devs ua d \<longleftrightarrow> (\<exists>a. (d, a) \<in> (parent_rel devs)\<^sup>* \<and> has_remove ua a)"
proof
  assume "effectively_removed devs ua d"
  then show "\<exists>a. (d, a) \<in> (parent_rel devs)\<^sup>* \<and> has_remove ua a"
  proof (induction rule: effectively_removed.induct)
    case (removed_itself d)
    then show ?case by blast
  next
    case (removed_with_parent p d)
    then obtain a where "(p, a) \<in> (parent_rel devs)\<^sup>*" "has_remove ua a" by blast
    moreover from removed_with_parent have "(d, p) \<in> parent_rel devs"
      by (simp add: parent_rel_def)
    ultimately show ?case
      by (meson converse_rtrancl_into_rtrancl)
  qed
next
  assume "\<exists>a. (d, a) \<in> (parent_rel devs)\<^sup>* \<and> has_remove ua a"
  then obtain a where "(d, a) \<in> (parent_rel devs)\<^sup>*" and a: "has_remove ua a" by blast
  then show "effectively_removed devs ua d"
  proof (induction rule: converse_rtrancl_induct)
    case base
    from a show ?case by (rule removed_itself)
  next
    case (step x y)
    then have "y \<in> set (parents_of devs x)" by (simp add: parent_rel_def)
    with step show ?case by (blast intro: removed_with_parent)
  qed
qed

lemma ancestor_removed_parents:
  "ancestor_removed devs ua d \<longleftrightarrow> (\<exists>p \<in> set (parents_of devs d). effectively_removed devs ua p)"
proof -
  have "ancestor_removed devs ua d \<longleftrightarrow> (\<exists>a. (d, a) \<in> (parent_rel devs)\<^sup>+ \<and> has_remove ua a)"
    by (auto simp: ancestor_removed_def ancestors_trancl)
  also have "\<dots> \<longleftrightarrow> (\<exists>p a. (d, p) \<in> parent_rel devs \<and> (p, a) \<in> (parent_rel devs)\<^sup>* \<and> has_remove ua a)"
    by (meson rtrancl_into_trancl2 tranclD)
  also have "\<dots> \<longleftrightarrow> (\<exists>p \<in> set (parents_of devs d). effectively_removed devs ua p)"
    by (auto simp: effectively_removed_rtrancl parent_rel_def)
  finally show ?thesis .
qed

lemma effectively_removed_iff:
  "effectively_removed devs ua d \<longleftrightarrow> has_remove ua d \<or> ancestor_removed devs ua d"
proof -
  have "effectively_removed devs ua d \<longleftrightarrow>
      has_remove ua d \<or> (\<exists>a. (d, a) \<in> (parent_rel devs)\<^sup>+ \<and> has_remove ua a)"
    unfolding effectively_removed_rtrancl by (metis rtranclD rtrancl_eq_or_trancl)
  then show ?thesis
    by (auto simp: ancestor_removed_def ancestors_trancl)
qed

lemma remove_filter_spec:
  "(effectively_removed devs ua d \<and> \<not> (\<exists>p \<in> set (parents_of devs d). effectively_removed devs ua p))
   \<longleftrightarrow> (has_remove ua d \<and> \<not> ancestor_removed devs ua d)"
  using ancestor_removed_parents [of devs ua d] effectively_removed_iff [of devs ua d] by blast

lemma reclaimedBytes_remove_code:
  "reclaimedBytes_remove devs ua =
     (\<Sum>d \<leftarrow> filter (\<lambda>d. has_remove ua d \<and> \<not> ancestor_removed devs ua d) (map fst ua).
        used_bytes devs d)"
  unfolding reclaimedBytes_remove_def remove_filter_spec ..

lemma filter_single:
  assumes "distinct xs" and "x \<in> set xs" and "\<And>y. y \<in> set xs \<Longrightarrow> P y \<longleftrightarrow> y = x"
  shows "filter P xs = [x]"
  using assms
proof (induction xs)
  case Nil
  then show ?case by simp
next
  case (Cons z zs)
  show ?case
  proof (cases "z = x")
    case True
    with Cons.prems have "filter P zs = []"
      by (auto simp: filter_empty_conv)
    with True Cons.prems show ?thesis by simp
  next
    case False
    with Cons have "filter P zs = [x]" by auto
    with False Cons.prems show ?thesis by auto
  qed
qed

text \<open>
  C1. On a well-formed snapshot whose keys are those of the staged actions,
  \<^verbatim>\<open>getReclaimableSpaceFromAction\<close> for \<^verbatim>\<open>"remove"\<close> returns the sum of total minus free
  over exactly the devices that are effectively removed and none of whose parents is
  effectively removed. In particular, when a device \<open>p\<close> has a remove action, no
  ancestor of \<open>p\<close> has one, and every other device with a remove action is a
  descendant of \<open>p\<close>, the result is the total minus free of \<open>p\<close> alone.
\<close>

theorem reclaimed_remove_no_double_counting:
  assumes "wf_devices devs" and "map fst ua = map fst devs"
  shows "getReclaimableSpaceFromAction Remove devs ua = Inr (reclaimedBytes_remove devs ua) \<and>
         (\<forall>p. p \<in> set (map fst ua) \<and> has_remove ua p \<and> \<not> ancestor_removed devs ua p \<and>
              (\<forall>d. has_remove ua d \<longrightarrow> d = p \<or> p \<in> set (getDeviceAncestors devs d)) \<longrightarrow>
              getReclaimableSpaceFromAction Remove devs ua = Inr (used_bytes devs p))"
proof (intro conjI allI impI)
  from assms(2) have keys: "fst ` set ua = fst ` set devs"
    by (metis set_map)
  show code: "getReclaimableSpaceFromAction Remove devs ua = Inr (reclaimedBytes_remove devs ua)"
    using reclaimable_remove_code [OF assms(1) keys] by (simp only: reclaimedBytes_remove_code)
  fix p
  assume p: "p \<in> set (map fst ua) \<and> has_remove ua p \<and> \<not> ancestor_removed devs ua p \<and>
              (\<forall>d. has_remove ua d \<longrightarrow> d = p \<or> p \<in> set (getDeviceAncestors devs d))"
  from assms have "distinct (map fst ua)"
    by (simp add: wf_devices_def)
  moreover from p have "p \<in> set (map fst ua)" by simp
  moreover have "(has_remove ua d \<and> \<not> ancestor_removed devs ua d) \<longleftrightarrow> d = p" for d
    using p by (auto simp: ancestor_removed_def)
  ultimately have "filter (\<lambda>d. has_remove ua d \<and> \<not> ancestor_removed devs ua d) (map fst ua) = [p]"
    by (intro filter_single) auto
  then show "getReclaimableSpaceFromAction Remove devs ua = Inr (used_bytes devs p)"
    using code by (simp only: reclaimedBytes_remove_code) (simp add: used_bytes_def)
qed

theorem reclaimed_remove_no_double_counting_witness:
  "wf_devices scenario_devices \<and>
   map fst [(''sda'', [remove_action]), (''sda1'', [remove_action])] = map fst scenario_devices \<and>
   getReclaimableSpaceFromAction Remove scenario_devices
     [(''sda'', []), (''sda1'', [remove_action])] = Inr 60 \<and>
   getReclaimableSpaceFromAction Remove scenario_devices
     [(''sda'', [remove_action]), (''sda1'', [remove_action])] = Inr 80"
proof -
  let ?one = "[(''sda'', []), (''sda1'', [remove_action])]"
  let ?both = "[(''sda'', [remove_action]), (''sda1'', [remove_action])]"
  have wf: "wf_devices scenario_devices"
    by (simp add: scenario_defs derived_defs)
  have k1: "map fst ?one = map fst scenario_devices"
    by (simp add: scenario_defs)
  have k2: "map fst ?both = map fst scenario_devices"
    by (simp add: scenario_defs)
  have "getReclaimableSpaceFromAction Remove scenario_devices ?one =
      Inr (reclaimedBytes_remove scenario_devices ?one)"
    using reclaimed_remove_no_double_counting [OF wf k1] by blast
  also have "reclaimedBytes_remove scenario_devices ?one = 60"
    by (simp add: reclaimedBytes_remove_code scenario_defs derived_defs)
  finally have one: "getReclaimableSpaceFromAction Remove scenario_devices ?one = Inr 60" .
  have "getReclaimableSpaceFromAction Remove scenario_devices ?both =
      Inr (reclaimedBytes_remove scenario_devices ?both)"
    using reclaimed_remove_no_double_counting [OF wf k2] by blast
  also have "reclaimedBytes_remove scenario_devices ?both = 80"
    by (simp add: reclaimedBytes_remove_code scenario_defs derived_defs)
  finally have both: "getReclaimableSpaceFromAction Remove scenario_devices ?both = Inr 80" .
  from wf k2 one both show ?thesis
    by blast
qed

section \<open>Reclaimed space of shrink actions\<close>






section \<open>The footer: status and the commit button\<close>









section \<open>Undo\<close>

text \<open>
  C5, as amended. \<^verbatim>\<open>onUndo\<close> on a device whose sequence is empty returns the state
  unchanged and raises nothing; on a sequence that ends with an action \<open>a\<close> it
  removes exactly \<open>a\<close>, leaving every other sequence and the keys as they were.
  The undo button is rendered only for a device whose sequence is not empty.
\<close>

theorem onUndo_pops_last:
  "(map_of ua d = Some [] \<longrightarrow> onUndo ua d = Inr ua) \<and>
   (map_of ua d = Some (acts @ [a]) \<longrightarrow>
      (\<exists>ua'. onUndo ua d = Inr ua' \<and> map_of ua' = (map_of ua)(d \<mapsto> acts) \<and>
              map fst ua' = map fst ua)) \<and>
   (DeviceActions dev level ua isDeviceShrinkable = Inr (Some c) \<and> undoButton c \<longrightarrow>
      actions_of ua (name_v dev) \<noteq> [])"
proof (intro conjI impI)
  assume "map_of ua d = Some []"
  then show "onUndo ua d = Inr ua"
    by (simp add: onUndo_def update_triv)
next
  assume m: "map_of ua d = Some (acts @ [a])"
  then have "onUndo ua d = Inr (AList.update d acts ua)"
    by (simp add: onUndo_def)
  moreover have "map_of (AList.update d acts ua) = (map_of ua)(d \<mapsto> acts)"
    by (rule update_conv')
  moreover have "map fst (AList.update d acts ua) = map fst ua"
    using m by (rule update_known_keys)
  ultimately show "\<exists>ua'. onUndo ua d = Inr ua' \<and> map_of ua' = (map_of ua)(d \<mapsto> acts) \<and>
              map fst ua' = map fst ua"
    by blast
next
  assume c: "DeviceActions dev level ua isDeviceShrinkable = Inr (Some c) \<and> undoButton c"
  show "actions_of ua (name_v dev) \<noteq> []"
  proof (cases "map_of ua (name_v dev)")
    case None
    with c show ?thesis
      by (auto simp: DeviceActions_def bind_r_def Let_def getDeviceActionOfType_def
          split: if_splits sum.splits)
  next
    case (Some acts)
    with c show ?thesis
      by (auto simp: DeviceActions_def bind_r_def Let_def actions_of_def
          split: if_splits sum.splits)
  qed
qed

text \<open>
  Undo on the empty sequence of \<^verbatim>\<open>sda1\<close> is no error: it returns the state it was
  given.
\<close>

theorem onUndo_empty_counterexample:
  "onUndo [(''sda'', []), (''sda1'', [])] ''sda1'' = Inr [(''sda'', []), (''sda1'', [])]"
  by (simp add: onUndo_def)

theorem onUndo_pops_last_witness:
  "map_of [(''sda'', []), (''sda1'', [remove_action])] ''sda'' = Some [] \<and>
   onUndo [(''sda'', []), (''sda1'', [remove_action])] ''sda'' =
     Inr [(''sda'', []), (''sda1'', [remove_action])] \<and>
   map_of [(''sda'', []), (''sda1'', [remove_action])] ''sda1'' = Some ([] @ [remove_action]) \<and>
   onUndo [(''sda'', []), (''sda1'', [remove_action])] ''sda1'' = Inr [(''sda'', []), (''sda1'', [])] \<and>
   DeviceActions sda1 1 [(''sda'', []), (''sda1'', [remove_action])] None =
     Inr (Some \<lparr>shrinkControl = NoShrink, deleteControl = DeleteText, undoButton = True\<rparr>) \<and>
   actions_of [(''sda'', []), (''sda1'', [remove_action])] (name_v sda1) \<noteq> []"
proof -
  let ?ua = "[(''sda'', []), (''sda1'', [remove_action])]"
  let ?c = "\<lparr>shrinkControl = NoShrink, deleteControl = DeleteText, undoButton = True\<rparr>"
  have m0: "map_of ?ua ''sda'' = Some []" and m1: "map_of ?ua ''sda1'' = Some ([] @ [remove_action])"
    by simp_all
  have da: "DeviceActions sda1 1 ?ua None = Inr (Some ?c)"
    by (simp add: DeviceActions_def has_action_of_type_def getDeviceActionOfType_def
        DeviceActionShrink_def DeviceActionDelete_def scenario_defs)
  from onUndo_pops_last [of ?ua "''sda''"] m0 have u0: "onUndo ?ua ''sda'' = Inr ?ua"
    by blast
  from onUndo_pops_last [of ?ua "''sda1''" "[]" remove_action] m1
  obtain ua' where ua': "onUndo ?ua ''sda1'' = Inr ua'"
    by blast
  then have u1: "onUndo ?ua ''sda1'' = Inr [(''sda'', []), (''sda1'', [])]"
    by (simp add: onUndo_def)
  from onUndo_pops_last [of ?ua _ _ _ sda1 1 None ?c] da
  have ne: "actions_of ?ua (name_v sda1) \<noteq> []"
    by simp
  from m0 u0 m1 u1 da ne show ?thesis
    by blast
qed

section \<open>The keys of the staged actions\<close>

lemma update_append_new:
  "k \<notin> fst ` set al \<Longrightarrow> AList.update k v al = al @ [(k, v)]"
  by (induction al) auto

lemma initial_fold_keys:
  "fst ` set (foldl (\<lambda>acc d. AList.update d [] acc) acc0 ks) = fst ` set acc0 \<union> set ks"
  by (induction ks arbitrary: acc0) (auto simp: dom_update)

lemma initial_fold_distinct:
  assumes "distinct ks" and "set ks \<inter> fst ` set acc0 = {}"
  shows "foldl (\<lambda>acc d. AList.update d [] acc) acc0 ks = acc0 @ map (\<lambda>k. (k, [])) ks"
  using assms
proof (induction ks arbitrary: acc0)
  case Nil
  then show ?case by simp
next
  case (Cons k ks)
  then have new: "k \<notin> fst ` set acc0"
    by auto
  have "set ks \<inter> fst ` set (acc0 @ [(k, [])]) = {}"
    using Cons.prems by auto
  with Cons have "foldl (\<lambda>acc d. AList.update d [] acc) (acc0 @ [(k, [])]) ks =
      (acc0 @ [(k, [])]) @ map (\<lambda>k. (k, [])) ks"
    by simp
  then show ?case
    by (simp add: update_append_new [OF new])
qed

lemma initial_fold_empty:
  assumes "\<And>k acts. map_of acc0 k = Some acts \<Longrightarrow> acts = []"
    and "map_of (foldl (\<lambda>acc d. AList.update d [] acc) acc0 ks) k = Some acts"
  shows "acts = []"
  using assms
proof (induction ks arbitrary: acc0)
  case Nil
  then show ?case by simp
next
  case (Cons x ks)
  show ?case
  proof (rule Cons.IH [of "AList.update x [] acc0"])
    fix k' acts' assume "map_of (AList.update x [] acc0) k' = Some acts'"
    then show "acts' = []"
      using Cons.prems(1) [of k' acts'] by (simp add: update_conv' split: if_splits)
  next
    from Cons.prems(2)
    show "map_of (foldl (\<lambda>acc d. AList.update d [] acc) (AList.update x [] acc0) ks) k = Some acts"
      by simp
  qed
qed

text \<open>
  C8, as amended. At construction the keys are exactly the keys of the device snapshot
  (in its order when they are distinct) and every key is mapped to the empty sequence;
  \<^verbatim>\<open>onAction\<close> and \<^verbatim>\<open>onUndo\<close>, when they return, leave the list of keys as it was.
\<close>

theorem keys_fixed_at_construction:
  "fst ` set (initialUnappliedActions devs) = fst ` set devs \<and>
   (distinct (map fst devs) \<longrightarrow> initialUnappliedActions devs = map (\<lambda>k. (k, [])) (map fst devs)) \<and>
   (\<forall>k acts. map_of (initialUnappliedActions devs) k = Some acts \<longrightarrow> acts = []) \<and>
   (\<forall>ua'. onAction ua d t v = Inr ua' \<longrightarrow> map fst ua' = map fst ua) \<and>
   (\<forall>ua'. onUndo ua d = Inr ua' \<longrightarrow> map fst ua' = map fst ua)"
proof (intro conjI allI impI)
  show "fst ` set (initialUnappliedActions devs) = fst ` set devs"
    by (simp add: initialUnappliedActions_def initial_fold_keys)
next
  assume "distinct (map fst devs)"
  then show "initialUnappliedActions devs = map (\<lambda>k. (k, [])) (map fst devs)"
    using initial_fold_distinct [of "map fst devs" "[]"] by (simp add: initialUnappliedActions_def)
next
  fix k acts assume "map_of (initialUnappliedActions devs) k = Some acts"
  then show "acts = []"
    unfolding initialUnappliedActions_def by (rule initial_fold_empty [rotated]) simp
next
  fix ua' assume "onAction ua d t v = Inr ua'"
  then show "map fst ua' = map fst ua"
    by (auto simp: onAction_def update_known_keys split: option.splits)
next
  fix ua' assume "onUndo ua d = Inr ua'"
  then show "map fst ua' = map fst ua"
    by (auto simp: onUndo_def update_known_keys split: option.splits)
qed

text \<open>
  The keys come from the snapshot, not from the selection: with disks \<^verbatim>\<open>sda\<close> and
  \<^verbatim>\<open>sdb\<close> in the snapshot and only \<^verbatim>\<open>sda\<close> selected, \<^verbatim>\<open>sdb\<close> is a key and has no
  row.
\<close>

lemma no_row_sdb: "\<not> device_row two_disks [''sda''] ''sdb'' level"
proof
  assume "device_row two_disks [''sda''] ''sdb'' level"
  then show False
  proof (cases rule: device_row.cases)
    case row_disk
    then show False by simp
  next
    case (row_child d l dev)
    then show False
      by (auto simp: two_disks_def sda_def sda1_def sdb_def split: if_splits)
  qed
qed

theorem keys_not_selection_counterexample:
  "fst ` set (initialUnappliedActions two_disks) \<noteq> {d. \<exists>level. device_row two_disks [''sda''] d level}"
proof -
  have "''sdb'' \<in> fst ` set (initialUnappliedActions two_disks)"
    by (simp add: initialUnappliedActions_def initial_fold_keys two_disks_def)
  moreover have "''sdb'' \<notin> {d. \<exists>level. device_row two_disks [''sda''] d level}"
    using no_row_sdb by simp
  ultimately show ?thesis
    by blast
qed

theorem keys_fixed_at_construction_witness:
  "distinct (map fst scenario_devices) \<and>
   initialUnappliedActions scenario_devices = [(''sda'', []), (''sda1'', [])] \<and>
   map_of (initialUnappliedActions scenario_devices) ''sda1'' = Some [] \<and>
   onAction (initialUnappliedActions scenario_devices) ''sda1'' Remove EmptyString =
     Inr [(''sda'', []), (''sda1'', [remove_action])] \<and>
   map fst [(''sda'', []), (''sda1'', [remove_action])] =
     map fst (initialUnappliedActions scenario_devices) \<and>
   onUndo [(''sda'', []), (''sda1'', [remove_action])] ''sda1'' = Inr [(''sda'', []), (''sda1'', [])] \<and>
   map fst [(''sda'', []), (''sda1'', [] :: action list)] =
     map fst [(''sda'', []), (''sda1'', [remove_action])]"
proof -
  have d: "distinct (map fst scenario_devices)"
    by (simp add: scenario_defs)
  note t = keys_fixed_at_construction [of scenario_devices]
  from t d have i: "initialUnappliedActions scenario_devices = [(''sda'', []), (''sda1'', [])]"
    by (simp add: scenario_defs)
  have m: "map_of (initialUnappliedActions scenario_devices) ''sda1'' = Some []"
    by (simp add: i)
  have a: "onAction (initialUnappliedActions scenario_devices) ''sda1'' Remove EmptyString =
      Inr [(''sda'', []), (''sda1'', [remove_action])]"
    by (simp add: i onAction_def remove_action_def)
  from keys_fixed_at_construction [of _ "initialUnappliedActions scenario_devices" "''sda1''" Remove EmptyString] a
  have ka: "map fst [(''sda'', []), (''sda1'', [remove_action])] =
      map fst (initialUnappliedActions scenario_devices)"
    by blast
  have u: "onUndo [(''sda'', []), (''sda1'', [remove_action])] ''sda1'' = Inr [(''sda'', []), (''sda1'', [])]"
    by (simp add: onUndo_def)
  from keys_fixed_at_construction [of _ "[(''sda'', []), (''sda1'', [remove_action])]" "''sda1''"] u
  have ku: "map fst [(''sda'', []), (''sda1'', [] :: action list)] =
      map fst [(''sda'', []), (''sda1'', [remove_action])]"
    by blast
  from d i m a ka u ku show ?thesis
    by blast
qed

section \<open>The shrink popover\<close>

lemma typed_input_at_most_total:
  "ShrinkPopover_onChange dev unitMult sliderValue (Some iv) cur \<le> total_v dev"
  by (simp add: ShrinkPopover_onChange_def)

lemma typed_input_nonnegative:
  assumes "0 \<le> iv * unitMult" and "0 \<le> total_v dev"
  shows "0 \<le> ShrinkPopover_onChange dev unitMult sliderValue (Some iv) cur"
  using assms by (simp add: ShrinkPopover_onChange_def)

lemma slider_input_rounds:
  "ShrinkPopover_onChange dev unitMult (Some p) None cur = Math_round (p / 100 * total_v dev)"
  by (simp add: ShrinkPopover_onChange_def)

lemma slider_input_in_range:
  assumes "0 \<le> p" and "p \<le> 100" and "total_v dev = of_int n" and "0 \<le> n"
  shows "0 \<le> ShrinkPopover_onChange dev unitMult (Some p) None cur \<and>
         ShrinkPopover_onChange dev unitMult (Some p) None cur \<le> total_v dev"
proof -
  let ?x = "p / 100 * of_int n :: rat"
  have x0: "0 \<le> ?x"
    using assms by simp
  have "p / 100 \<le> 1"
    using assms by simp
  then have "?x \<le> 1 * of_int n"
    using assms(4) by (intro mult_right_mono) simp_all
  then have xn: "?x \<le> of_int n"
    by simp
  have "of_int 0 \<le> ?x + 1 / 2"
    using x0 by simp
  then have "0 \<le> \<lfloor>?x + 1 / 2\<rfloor>"
    by (simp only: le_floor_iff)
  moreover have "?x + 1 / 2 < of_int (n + 1)"
    using xn by simp
  then have "\<lfloor>?x + 1 / 2\<rfloor> < n + 1"
    by (simp only: floor_less_iff)
  ultimately show ?thesis
    using assms(3) by (simp add: ShrinkPopover_onChange_def Math_round_def)
qed

lemma resize_enabled_in_range:
  assumes "0 \<le> v" and "v \<le> total_v dev"
  shows "\<not> resizeIsDisabled dev v \<longleftrightarrow> 0 < v \<and> v < total_v dev"
  using assms by (auto simp: resizeIsDisabled_def)

lemma popover_value_below_total:
  assumes "v \<le> total_v dev"
  shows "popover_value dev v"
proof -
  have "popover_value dev (ShrinkPopover_onChange dev 1 None (Some v) (total_v dev))"
    by (intro popover_change popover_initial)
  with assms show ?thesis
    by (simp add: ShrinkPopover_onChange_def)
qed

lemma Math_round_of_int: "Math_round (of_int k) = of_int k"
proof -
  have "\<lfloor>rat_of_int k + 1 / 2\<rfloor> = k"
    by (rule floor_unique) simp_all
  then show ?thesis
    by (simp only: Math_round_def)
qed

lemma popover_value_integer:
  assumes "total_v dev \<noteq> 0"
  shows "popover_value dev (of_int k)"
proof -
  let ?p = "100 * of_int k / total_v dev"
  have e: "?p / 100 * total_v dev = of_int k"
    using assms by simp
  have "ShrinkPopover_onChange dev 1 (Some ?p) None (total_v dev) =
      Math_round (?p / 100 * total_v dev)"
    by (rule slider_input_rounds)
  also have "\<dots> = Math_round (of_int k)"
    by (simp only: e)
  also have "\<dots> = of_int k"
    by (rule Math_round_of_int)
  finally have v: "ShrinkPopover_onChange dev 1 (Some ?p) None (total_v dev) = of_int k" .
  have "popover_value dev (ShrinkPopover_onChange dev 1 (Some ?p) None (total_v dev))"
    by (intro popover_change popover_initial)
  then show ?thesis
    by (simp only: v)
qed

text \<open>
  C4. A typed size is clamped from above only: \<^verbatim>\<open>Math.min(device.total.v, ...)\<close>. For
  \<^verbatim>\<open>sda1\<close> (total 80, unit multiplier 1) the typed input \<open>-5\<close> resolves to \<open>-5\<close>,
  which is below zero, and the "Resize" button, disabled only at \<open>0\<close> and at the
  total, is enabled for it although \<open>0 < value < total\<close> fails. The lemmas above are
  what holds: a typed size never exceeds the total, a slider position in
  \<open>[0, 100]\<close> resolves to \<open>round(p / 100 * total)\<close> within \<open>[0, total]\<close>, and for a
  value within \<open>[0, total]\<close> the button is enabled exactly on the open interval.
\<close>

theorem typed_input_below_zero:
  "ShrinkPopover_onChange sda1 1 None (Some (- 5)) (total_v sda1) = - 5 \<and>
   popover_value sda1 (- 5) \<and>
   \<not> resizeIsDisabled sda1 (- 5) \<and>
   \<not> (0 \<le> ShrinkPopover_onChange sda1 1 None (Some (- 5)) (total_v sda1))"
proof -
  have v: "ShrinkPopover_onChange sda1 1 None (Some (- 5)) (total_v sda1) = - 5"
    by (simp add: ShrinkPopover_onChange_def sda1_def)
  have "popover_value sda1 (ShrinkPopover_onChange sda1 1 None (Some (- 5)) (total_v sda1))"
    by (intro popover_change popover_initial)
  with v have "popover_value sda1 (- 5)"
    by simp
  moreover have "\<not> resizeIsDisabled sda1 (- 5)"
    by (simp add: resizeIsDisabled_def sda1_def)
  ultimately show ?thesis
    using v by simp
qed

section \<open>Submitting the staged actions\<close>








section \<open>The controls of a row\<close>

lemma find_type_iff:
  "find (\<lambda>a. type_a a = t) acts \<noteq> None \<longleftrightarrow> t \<in> set (map type_a acts)"
  by (induction acts) auto

lemma find_type_Some_iff:
  "(\<exists>y. find (\<lambda>a. type_a a = t) acts = Some y) \<longleftrightarrow> t \<in> type_a ` set acts"
  using find_type_iff [of t acts] by auto

lemma has_action_of_type_key:
  assumes "d \<in> fst ` set ua"
  shows "has_action_of_type Remove ua d = Inr (has_remove ua d)"
proof -
  from assms obtain acts where "map_of ua d = Some acts"
    by (metis map_of_eq_None_iff not_Some_eq)
  then show ?thesis
    by (simp add: has_action_of_type_def getDeviceActionOfType_def has_remove_def find_type_Some_iff)
qed

lemma parents_have_remove:
  assumes "set (parents_v dev) \<subseteq> fst ` set ua"
  shows "some_r (has_action_of_type Remove ua) (parents_v dev) = Inr (parentHasRemove ua dev)"
  unfolding parentHasRemove_def
  by (rule some_r_total) (use assms in \<open>auto intro: has_action_of_type_key\<close>)

lemma DeviceActions_rendered:
  assumes "level \<le> 1" and "name_v dev \<in> fst ` set ua" and "set (parents_v dev) \<subseteq> fst ` set ua"
  shows "DeviceActions dev level ua isDeviceShrinkable =
     Inr (Some \<lparr>shrinkControl =
                   DeviceActionShrink dev (parentHasRemove ua dev \<or> has_remove ua (name_v dev))
                     (newDeviceSize ua dev) isDeviceShrinkable,
                 deleteControl =
                   DeviceActionDelete dev (parentHasRemove ua dev \<or> has_remove ua (name_v dev))
                     (newDeviceSize ua dev),
                 undoButton = (\<not> parentHasRemove ua dev \<and> actions_of ua (name_v dev) \<noteq> [])\<rparr>)"
proof -
  from assms(2) obtain acts where acts: "map_of ua (name_v dev) = Some acts"
    by (metis map_of_eq_None_iff not_Some_eq)
  have own: "has_action_of_type Remove ua (name_v dev) = Inr (has_remove ua (name_v dev))"
    using assms(2) by (rule has_action_of_type_key)
  have sh: "getDeviceActionOfType (name_v dev) Shrink ua = Inr (find (\<lambda>a. type_a a = Shrink) acts)"
    using acts by (simp add: getDeviceActionOfType_def)
  show ?thesis
    using assms(1) acts
    by (simp add: DeviceActions_def parents_have_remove [OF assms(3)] own sh newDeviceSize_def
        actions_of_def Let_def)
qed

text \<open>
  C9, as amended. For a row at level 0 or 1 whose device and parents are keys, the
  controls are rendered, and the undo button is offered exactly when the device's own
  sequence is not empty and no parent of the device has a remove action of its own.
  Where the parents of the device have no parents themselves, as for the partitions of
  a disk, this is: the sequence is not empty and no ancestor is effectively removed.
\<close>

theorem undo_offered_iff:
  assumes "level \<le> 1" and "name_v dev \<in> fst ` set ua" and "set (parents_v dev) \<subseteq> fst ` set ua"
  shows "\<exists>c. DeviceActions dev level ua isDeviceShrinkable = Inr (Some c) \<and>
           (undoButton c \<longleftrightarrow>
              actions_of ua (name_v dev) \<noteq> [] \<and> \<not> (\<exists>p \<in> set (parents_v dev). has_remove ua p)) \<and>
           (map_of devs (name_v dev) = Some dev \<and> (\<forall>p \<in> set (parents_v dev). parents_of devs p = []) \<longrightarrow>
              (undoButton c \<longleftrightarrow>
                 actions_of ua (name_v dev) \<noteq> [] \<and>
                 \<not> (\<exists>p \<in> set (parents_of devs (name_v dev)). effectively_removed devs ua p)))"
proof -
  let ?c = "\<lparr>shrinkControl =
                   DeviceActionShrink dev (parentHasRemove ua dev \<or> has_remove ua (name_v dev))
                     (newDeviceSize ua dev) isDeviceShrinkable,
                 deleteControl =
                   DeviceActionDelete dev (parentHasRemove ua dev \<or> has_remove ua (name_v dev))
                     (newDeviceSize ua dev),
                 undoButton = (\<not> parentHasRemove ua dev \<and> actions_of ua (name_v dev) \<noteq> [])\<rparr>"
  have r: "DeviceActions dev level ua isDeviceShrinkable = Inr (Some ?c)"
    using assms by (rule DeviceActions_rendered)
  have u: "undoButton ?c \<longleftrightarrow>
      actions_of ua (name_v dev) \<noteq> [] \<and> \<not> (\<exists>p \<in> set (parents_v dev). has_remove ua p)"
    by (auto simp: parentHasRemove_def)
  have flat: "(\<exists>p \<in> set (parents_of devs (name_v dev)). effectively_removed devs ua p) \<longleftrightarrow>
      (\<exists>p \<in> set (parents_v dev). has_remove ua p)"
    if dev: "map_of devs (name_v dev) = Some dev"
      and top: "\<forall>p \<in> set (parents_v dev). parents_of devs p = []"
  proof -
    have "effectively_removed devs ua p \<longleftrightarrow> has_remove ua p" if "p \<in> set (parents_v dev)" for p
    proof
      assume "effectively_removed devs ua p"
      then show "has_remove ua p"
        using top that by (cases rule: effectively_removed.cases) auto
    qed (rule removed_itself)
    with dev show ?thesis
      by (simp add: parents_of_def)
  qed
  from r u flat show ?thesis
    by (intro exI [of _ ?c]) (simp only: simp_thms, blast)
qed

text \<open>
  Only the parents' own remove actions are looked at. The volume group \<^verbatim>\<open>vg0\<close> has a
  row at level 1 below the disk \<^verbatim>\<open>sdd\<close>; its other parent \<^verbatim>\<open>sdc1\<close> is a partition of
  the disk \<^verbatim>\<open>sdc\<close>. After a click on delete for \<^verbatim>\<open>vg0\<close> and one for \<^verbatim>\<open>sdc\<close>, the
  parent \<^verbatim>\<open>sdc1\<close> is effectively removed and the undo button of \<^verbatim>\<open>vg0\<close> is still
  offered.
\<close>

lemmas lvm_defs = lvm_devices_def sdc_def sdc1_def sdd_def vg0_def remove_action_def

lemmas control_defs =
  DeviceActions_def has_action_of_type_def getDeviceActionOfType_def
  DeviceActionShrink_def DeviceActionDelete_def

lemma lvm_initial:
  "initialUnappliedActions lvm_devices = [(''sdc'', []), (''sdc1'', []), (''sdd'', []), (''vg0'', [])]"
  by (simp add: initialUnappliedActions_def lvm_defs)

lemma lvm_row_vg0: "device_row lvm_devices [''sdc'', ''sdd''] ''vg0'' 1"
proof -
  have "device_row lvm_devices [''sdc'', ''sdd''] ''sdd'' 0"
    by (rule row_disk) simp
  moreover have "map_of lvm_devices ''sdd'' = Some sdd"
    by (simp add: lvm_devices_def)
  moreover have "''vg0'' \<in> set (children_v sdd)"
    by (simp add: sdd_def)
  ultimately have "device_row lvm_devices [''sdc'', ''sdd''] ''vg0'' (Suc 0)"
    by (rule row_child)
  then show ?thesis
    by simp
qed

lemma lvm_step_vg0:
  "ui_step lvm_devices [''sdc'', ''sdd'']
     [(''sdc'', []), (''sdc1'', []), (''sdd'', []), (''vg0'', [])]
     [(''sdc'', []), (''sdc1'', []), (''sdd'', []), (''vg0'', [remove_action])]"
proof (rule click_delete [where disk = "''vg0''" and level = 1 and dev = vg0
      and isDeviceShrinkable = None])
  show "device_row lvm_devices [''sdc'', ''sdd''] ''vg0'' 1"
    by (rule lvm_row_vg0)
  show "map_of lvm_devices ''vg0'' = Some vg0"
    by (simp add: lvm_devices_def)
  show "DeviceActions vg0 1 [(''sdc'', []), (''sdc1'', []), (''sdd'', []), (''vg0'', [])] None =
      Inr (Some \<lparr>shrinkControl = ShrinkButton True, deleteControl = DeleteButton False,
                  undoButton = False\<rparr>)"
    by (simp add: control_defs lvm_defs)
  show "deleteControl \<lparr>shrinkControl = ShrinkButton True, deleteControl = DeleteButton False,
                  undoButton = False\<rparr> = DeleteButton False"
    by simp
  show "onAction [(''sdc'', []), (''sdc1'', []), (''sdd'', []), (''vg0'', [])] (name_v vg0)
      Remove EmptyString =
      Inr [(''sdc'', []), (''sdc1'', []), (''sdd'', []), (''vg0'', [remove_action])]"
    by (simp add: onAction_def lvm_defs)
qed

lemma lvm_step_sdc:
  "ui_step lvm_devices [''sdc'', ''sdd'']
     [(''sdc'', []), (''sdc1'', []), (''sdd'', []), (''vg0'', [remove_action])]
     [(''sdc'', [remove_action]), (''sdc1'', []), (''sdd'', []), (''vg0'', [remove_action])]"
proof (rule click_delete [where disk = "''sdc''" and level = 0 and dev = sdc
      and isDeviceShrinkable = None])
  show "device_row lvm_devices [''sdc'', ''sdd''] ''sdc'' 0"
    by (rule row_disk) simp
  show "map_of lvm_devices ''sdc'' = Some sdc"
    by (simp add: lvm_devices_def)
  show "DeviceActions sdc 0 [(''sdc'', []), (''sdc1'', []), (''sdd'', []), (''vg0'', [remove_action])] None =
      Inr (Some \<lparr>shrinkControl = NoShrink, deleteControl = DeleteButton False,
                  undoButton = False\<rparr>)"
    by (simp add: control_defs lvm_defs)
  show "deleteControl \<lparr>shrinkControl = NoShrink, deleteControl = DeleteButton False,
                  undoButton = False\<rparr> = DeleteButton False"
    by simp
  show "onAction [(''sdc'', []), (''sdc1'', []), (''sdd'', []), (''vg0'', [remove_action])] (name_v sdc)
      Remove EmptyString =
      Inr [(''sdc'', [remove_action]), (''sdc1'', []), (''sdd'', []), (''vg0'', [remove_action])]"
    by (simp add: onAction_def lvm_defs)
qed

theorem undo_offered_below_removed_counterexample:
  "ui_reachable lvm_devices [''sdc'', ''sdd'']
     [(''sdc'', [remove_action]), (''sdc1'', []), (''sdd'', []), (''vg0'', [remove_action])] \<and>
   device_row lvm_devices [''sdc'', ''sdd''] ''vg0'' 1 \<and>
   DeviceActions vg0 1
     [(''sdc'', [remove_action]), (''sdc1'', []), (''sdd'', []), (''vg0'', [remove_action])] None =
     Inr (Some \<lparr>shrinkControl = NoShrink, deleteControl = DeleteText, undoButton = True\<rparr>) \<and>
   ''sdc1'' \<in> set (parents_of lvm_devices ''vg0'') \<and>
   effectively_removed lvm_devices
     [(''sdc'', [remove_action]), (''sdc1'', []), (''sdd'', []), (''vg0'', [remove_action])] ''sdc1''"
proof -
  let ?ua = "[(''sdc'', [remove_action]), (''sdc1'', []), (''sdd'', []), (''vg0'', [remove_action])]"
  have "(ui_step lvm_devices [''sdc'', ''sdd''])\<^sup>*\<^sup>*
      [(''sdc'', []), (''sdc1'', []), (''sdd'', []), (''vg0'', [])]
      [(''sdc'', []), (''sdc1'', []), (''sdd'', []), (''vg0'', [remove_action])]"
    using lvm_step_vg0 by (rule r_into_rtranclp)
  then have "(ui_step lvm_devices [''sdc'', ''sdd''])\<^sup>*\<^sup>*
      [(''sdc'', []), (''sdc1'', []), (''sdd'', []), (''vg0'', [])] ?ua"
    using lvm_step_sdc by (rule rtranclp.rtrancl_into_rtrancl)
  then have "ui_reachable lvm_devices [''sdc'', ''sdd''] ?ua"
    by (simp only: ui_reachable_def lvm_initial)
  moreover have "DeviceActions vg0 1 ?ua None =
      Inr (Some \<lparr>shrinkControl = NoShrink, deleteControl = DeleteText, undoButton = True\<rparr>)"
    by (simp add: control_defs lvm_defs)
  moreover have "''sdc1'' \<in> set (parents_of lvm_devices ''vg0'')"
    by (simp add: parents_of_def lvm_defs)
  moreover have "effectively_removed lvm_devices ?ua ''sdc1''"
  proof (rule removed_with_parent)
    show "''sdc'' \<in> set (parents_of lvm_devices ''sdc1'')"
      by (simp add: parents_of_def lvm_defs)
    show "effectively_removed lvm_devices ?ua ''sdc''"
      by (rule removed_itself) (simp add: has_remove_eval lvm_defs)
  qed
  ultimately show ?thesis
    using lvm_row_vg0 by blast
qed

theorem undo_offered_iff_witness:
  "(1 :: nat) \<le> 1 \<and>
   name_v sda1 \<in> fst ` set [(''sda'', []), (''sda1'', [remove_action])] \<and>
   set (parents_v sda1) \<subseteq> fst ` set [(''sda'', []), (''sda1'', [remove_action])] \<and>
   map_of scenario_devices (name_v sda1) = Some sda1 \<and>
   parents_v sda1 = [''sda''] \<and> parents_of scenario_devices ''sda'' = [] \<and>
   (\<exists>c. DeviceActions sda1 1 [(''sda'', []), (''sda1'', [remove_action])] None = Inr (Some c) \<and>
        undoButton c \<and>
        actions_of [(''sda'', []), (''sda1'', [remove_action])] (name_v sda1) \<noteq> [] \<and>
        \<not> (\<exists>p \<in> set (parents_of scenario_devices (name_v sda1)).
              effectively_removed scenario_devices [(''sda'', []), (''sda1'', [remove_action])] p))"
proof -
  let ?ua = "[(''sda'', []), (''sda1'', [remove_action])]"
  have h1: "(1 :: nat) \<le> 1" by simp
  have h2: "name_v sda1 \<in> fst ` set ?ua" by (simp add: sda1_def)
  have h3: "set (parents_v sda1) \<subseteq> fst ` set ?ua" by (simp add: sda1_def)
  have h4: "map_of scenario_devices (name_v sda1) = Some sda1" by (simp add: scenario_defs)
  have h5: "parents_v sda1 = [''sda'']" by (simp add: sda1_def)
  have h6: "parents_of scenario_devices ''sda'' = []" by (simp add: parents_of_def scenario_defs)
  have top: "\<forall>p \<in> set (parents_v sda1). parents_of scenario_devices p = []"
    using h5 h6 by simp
  have ne: "actions_of ?ua (name_v sda1) \<noteq> []"
    by (simp add: actions_of_def sda1_def)
  have nr: "\<not> (\<exists>p \<in> set (parents_v sda1). has_remove ?ua p)"
    by (simp add: h5 has_remove_eval)
  from undo_offered_iff [OF h1 h2 h3, of None scenario_devices] h4 top ne nr
  obtain c where "DeviceActions sda1 1 ?ua None = Inr (Some c)" "undoButton c"
    "\<not> (\<exists>p \<in> set (parents_of scenario_devices (name_v sda1)).
              effectively_removed scenario_devices ?ua p)"
    by blast
  with h1 h2 h3 h4 h5 h6 ne show ?thesis
    by blast
qed

section \<open>What a session can stage\<close>

lemma initial_sequences_empty:
  "\<forall>k acts. map_of (initialUnappliedActions devs) k = Some acts \<longrightarrow> acts = []"
  unfolding initialUnappliedActions_def
  by (intro allI impI, erule initial_fold_empty [rotated]) simp

lemma wf_device_name:
  assumes "wf_devices devs" and "map_of devs k = Some dev"
  shows "name_v dev = k"
proof -
  from assms(2) have "(k, dev) \<in> set devs"
    by (rule map_of_SomeD)
  with assms(1) show ?thesis
    by (auto simp: wf_devices_def list_all_iff)
qed

lemma onAction_map_of:
  assumes "onAction ua d t v = Inr ua'"
  shows "\<exists>acts. map_of ua d = Some acts \<and>
           map_of ua' = (map_of ua)(d \<mapsto> acts @ [\<lparr>type_a = t, value_a = v\<rparr>])"
  using assms by (cases "map_of ua d") (auto simp: onAction_def update_conv')

lemma onUndo_map_of:
  assumes "onUndo ua d = Inr ua'"
  shows "\<exists>acts. map_of ua d = Some acts \<and> map_of ua' = (map_of ua)(d \<mapsto> butlast acts)"
  using assms by (cases "map_of ua d") (auto simp: onUndo_def update_conv')

lemma DeviceActions_Some:
  assumes "DeviceActions dev level ua isDeviceShrinkable = Inr (Some c)"
  shows "level \<le> 1 \<and>
         (\<exists>acts pr. map_of ua (name_v dev) = Some acts \<and>
            c = \<lparr>shrinkControl =
                   DeviceActionShrink dev (pr \<or> Remove \<in> set (map type_a acts))
                     (map_option value_a (find (\<lambda>a. type_a a = Shrink) acts)) isDeviceShrinkable,
                 deleteControl =
                   DeviceActionDelete dev (pr \<or> Remove \<in> set (map type_a acts))
                     (map_option value_a (find (\<lambda>a. type_a a = Shrink) acts)),
                 undoButton = (\<not> pr \<and> acts \<noteq> [])\<rparr>)"
proof -
  from assms have level: "level \<le> 1"
    by (auto simp: DeviceActions_def split: if_splits)
  from assms level obtain pr where pr: "some_r (has_action_of_type Remove ua) (parents_v dev) = Inr pr"
    by (cases "some_r (has_action_of_type Remove ua) (parents_v dev)") (auto simp: DeviceActions_def)
  from assms level pr obtain sa where sa: "getDeviceActionOfType (name_v dev) Shrink ua = Inr sa"
    by (cases "getDeviceActionOfType (name_v dev) Shrink ua")
      (auto simp: DeviceActions_def bind_r_def split: if_splits sum.splits)
  then obtain acts where acts: "map_of ua (name_v dev) = Some acts"
    and sa': "sa = find (\<lambda>a. type_a a = Shrink) acts"
    by (cases "map_of ua (name_v dev)") (auto simp: getDeviceActionOfType_def)
  have own: "has_action_of_type Remove ua (name_v dev) = Inr (Remove \<in> set (map type_a acts))"
    using acts by (simp add: has_action_of_type_def getDeviceActionOfType_def find_type_Some_iff)
  from assms level pr sa acts own have
    "c = \<lparr>shrinkControl =
                   DeviceActionShrink dev (pr \<or> Remove \<in> set (map type_a acts))
                     (map_option value_a (find (\<lambda>a. type_a a = Shrink) acts)) isDeviceShrinkable,
                 deleteControl =
                   DeviceActionDelete dev (pr \<or> Remove \<in> set (map type_a acts))
                     (map_option value_a (find (\<lambda>a. type_a a = Shrink) acts)),
                 undoButton = (\<not> pr \<and> acts \<noteq> [])\<rparr>"
    by (cases pr) (auto simp: DeviceActions_def sa' Let_def)
  with level acts show ?thesis
    by blast
qed

lemma delete_button_enabled:
  assumes "DeviceActions dev level ua isDeviceShrinkable = Inr (Some c)"
    and "deleteControl c = DeleteButton False"
  shows "\<not> (type_v dev = ''disk'' \<and> children_v dev = [])"
proof -
  from DeviceActions_Some [OF assms(1)] obtain hbr nds
    where "deleteControl c = DeviceActionDelete dev hbr nds"
    by auto
  with assms(2) show ?thesis
    by (auto simp: DeviceActionDelete_def split: if_splits)
qed

lemma has_remove_append_shrink:
  assumes "map_of ua d = Some acts"
    and "map_of ua' = (map_of ua)(d \<mapsto> acts @ [\<lparr>type_a = Shrink, value_a = v\<rparr>])"
  shows "has_remove ua' x \<longleftrightarrow> has_remove ua x"
  using assms by (simp add: has_remove_def)

lemma has_remove_butlast:
  assumes "map_of ua d = Some acts" and "map_of ua' = (map_of ua)(d \<mapsto> butlast acts)"
    and "has_remove ua' x"
  shows "has_remove ua x"
proof (cases "x = d")
  case True
  with assms have "Remove \<in> set (map type_a (butlast acts))"
    by (simp add: has_remove_def)
  then have "Remove \<in> set (map type_a acts)"
    by (auto dest: in_set_butlastD)
  with True assms(1) show ?thesis
    by (simp add: has_remove_def)
next
  case False
  with assms show ?thesis
    by (simp add: has_remove_def)
qed

lemma staged_on_rows_update:
  assumes "staged_on_rows devs sel ua" and "map_of ua' = (map_of ua)(d \<mapsto> acts')"
    and "device_row devs sel d level" and "level \<le> 1"
  shows "staged_on_rows devs sel ua'"
  unfolding staged_on_rows_def
proof (intro allI impI)
  fix x acts assume x: "map_of ua' x = Some acts \<and> acts \<noteq> []"
  show "\<exists>level \<le> 1. device_row devs sel x level"
  proof (cases "x = d")
    case True
    with assms(3,4) show ?thesis by blast
  next
    case False
    with x assms(2) have "map_of ua x = Some acts \<and> acts \<noteq> []"
      by simp
    with assms(1) show ?thesis
      unfolding staged_on_rows_def by blast
  qed
qed

lemma ui_step_invariant:
  assumes wf: "wf_devices devs" and step: "ui_step devs sel ua ua'"
    and rows: "staged_on_rows devs sel ua" and bare: "bare_disks_kept devs ua"
  shows "staged_on_rows devs sel ua' \<and> bare_disks_kept devs ua'"
  using step
proof (cases rule: ui_step.cases)
  case (click_delete disk level dev sh c)
  from wf click_delete(2) have name: "name_v dev = disk"
    by (rule wf_device_name)
  from DeviceActions_Some [OF click_delete(3)] have level: "level \<le> 1"
    by simp
  from onAction_map_of [OF click_delete(5)] name obtain acts
    where acts: "map_of ua disk = Some acts"
      and ua': "map_of ua' = (map_of ua)(disk \<mapsto> acts @ [\<lparr>type_a = Remove, value_a = EmptyString\<rparr>])"
    by auto
  have "staged_on_rows devs sel ua'"
    using rows ua' click_delete(1) level by (rule staged_on_rows_update)
  moreover have "bare_disks_kept devs ua'"
    unfolding bare_disks_kept_def
  proof (intro allI impI)
    fix d dev' assume d: "map_of devs d = Some dev' \<and> type_v dev' = ''disk'' \<and> children_v dev' = []"
    have "d \<noteq> disk"
      using d click_delete(2) delete_button_enabled [OF click_delete(3,4)] by auto
    then have "has_remove ua' d \<longleftrightarrow> has_remove ua d"
      using ua' by (simp add: has_remove_def)
    with bare d show "\<not> has_remove ua' d"
      unfolding bare_disks_kept_def by blast
  qed
  ultimately show ?thesis ..
next
  case (click_resize disk level dev sh c v)
  from wf click_resize(2) have name: "name_v dev = disk"
    by (rule wf_device_name)
  from DeviceActions_Some [OF click_resize(3)] have level: "level \<le> 1"
    by simp
  from onAction_map_of [OF click_resize(7)] name obtain acts
    where acts: "map_of ua disk = Some acts"
      and ua': "map_of ua' = (map_of ua)(disk \<mapsto> acts @ [\<lparr>type_a = Shrink, value_a = Number v\<rparr>])"
    by auto
  have "staged_on_rows devs sel ua'"
    using rows ua' click_resize(1) level by (rule staged_on_rows_update)
  moreover have "bare_disks_kept devs ua'"
    using bare has_remove_append_shrink [OF acts ua'] by (simp add: bare_disks_kept_def)
  ultimately show ?thesis ..
next
  case (click_undo disk level dev sh c)
  from wf click_undo(2) have name: "name_v dev = disk"
    by (rule wf_device_name)
  from DeviceActions_Some [OF click_undo(3)] have level: "level \<le> 1"
    by simp
  from onUndo_map_of [OF click_undo(5)] name obtain acts
    where acts: "map_of ua disk = Some acts"
      and ua': "map_of ua' = (map_of ua)(disk \<mapsto> butlast acts)"
    by auto
  have "staged_on_rows devs sel ua'"
    using rows ua' click_undo(1) level by (rule staged_on_rows_update)
  moreover have "bare_disks_kept devs ua'"
    using bare has_remove_butlast [OF acts ua'] unfolding bare_disks_kept_def by blast
  ultimately show ?thesis ..
qed

lemma initial_invariant:
  "staged_on_rows devs sel (initialUnappliedActions devs) \<and>
   bare_disks_kept devs (initialUnappliedActions devs)"
proof -
  have empty: "acts = []" if "map_of (initialUnappliedActions devs) k = Some acts" for k acts
    using that initial_sequences_empty [of devs] by blast
  have "staged_on_rows devs sel (initialUnappliedActions devs)"
    unfolding staged_on_rows_def using empty by blast
  moreover have "\<not> has_remove (initialUnappliedActions devs) d" for d
  proof (cases "map_of (initialUnappliedActions devs) d")
    case None
    then show ?thesis by (simp add: has_remove_def)
  next
    case (Some acts)
    with empty [OF Some] show ?thesis by (simp add: has_remove_def)
  qed
  then have "bare_disks_kept devs (initialUnappliedActions devs)"
    by (simp add: bare_disks_kept_def)
  ultimately show ?thesis ..
qed

lemma ui_step_target:
  assumes wf: "wf_devices devs" and step: "ui_step devs sel ua ua'"
  shows "\<exists>d level. level \<le> 1 \<and> device_row devs sel d level \<and>
           (\<forall>x. x \<noteq> d \<longrightarrow> map_of ua' x = map_of ua x)"
  using step
proof (cases rule: ui_step.cases)
  case (click_delete disk level dev sh c)
  from wf click_delete(2) have name: "name_v dev = disk"
    by (rule wf_device_name)
  from DeviceActions_Some [OF click_delete(3)] have level: "level \<le> 1"
    by simp
  from onAction_map_of [OF click_delete(5)] name
  have "\<forall>x. x \<noteq> disk \<longrightarrow> map_of ua' x = map_of ua x"
    by auto
  with level click_delete(1) show ?thesis
    by blast
next
  case (click_resize disk level dev sh c v)
  from wf click_resize(2) have name: "name_v dev = disk"
    by (rule wf_device_name)
  from DeviceActions_Some [OF click_resize(3)] have level: "level \<le> 1"
    by simp
  from onAction_map_of [OF click_resize(7)] name
  have "\<forall>x. x \<noteq> disk \<longrightarrow> map_of ua' x = map_of ua x"
    by auto
  with level click_resize(1) show ?thesis
    by blast
next
  case (click_undo disk level dev sh c)
  from wf click_undo(2) have name: "name_v dev = disk"
    by (rule wf_device_name)
  from DeviceActions_Some [OF click_undo(3)] have level: "level \<le> 1"
    by simp
  from onUndo_map_of [OF click_undo(5)] name
  have "\<forall>x. x \<noteq> disk \<longrightarrow> map_of ua' x = map_of ua x"
    by auto
  with level click_undo(1) show ?thesis
    by blast
qed

text \<open>
  C10, as amended. A row at level 2 or deeper renders no controls, whatever device it
  shows. In every state a session can reach from the initial one by clicks on enabled
  controls: each further click appends to or pops from the sequence of a device that
  has a row at level 0 or 1, and leaves every other sequence as it is; a device with
  no row at level 0 or 1 (one that is neither a selected disk nor a child of one) has
  an empty sequence; and a disk without children has no remove action, its delete
  button being rendered disabled wherever its controls are rendered. The level belongs
  to the row, not to the device: a device nested two levels below one selected disk
  that is also a child of another selected disk acquires actions through its row at
  level 1, as the example after the theorem shows.
\<close>

theorem staged_only_on_rows_0_and_1:
  assumes "wf_devices devs" and "ui_reachable devs selectedDisks ua"
  shows "(\<forall>dev level isDeviceShrinkable.
            1 < level \<longrightarrow> DeviceActions dev level ua isDeviceShrinkable = Inr None) \<and>
         (\<forall>ua'. ui_step devs selectedDisks ua ua' \<longrightarrow>
            (\<exists>d level. level \<le> 1 \<and> device_row devs selectedDisks d level \<and>
               (\<forall>x. x \<noteq> d \<longrightarrow> map_of ua' x = map_of ua x))) \<and>
         (\<forall>d acts. map_of ua d = Some acts \<and> \<not> (\<exists>level \<le> 1. device_row devs selectedDisks d level) \<longrightarrow>
            acts = []) \<and>
         (\<forall>d dev. map_of devs d = Some dev \<and> type_v dev = ''disk'' \<and> children_v dev = [] \<longrightarrow>
            \<not> has_remove ua d \<and>
            (\<forall>level isDeviceShrinkable c.
               DeviceActions dev level ua isDeviceShrinkable = Inr (Some c) \<longrightarrow>
               deleteControl c \<noteq> DeleteButton False))"
proof -
  from assms(2) have "(ui_step devs selectedDisks)\<^sup>*\<^sup>* (initialUnappliedActions devs) ua"
    by (simp add: ui_reachable_def)
  then have "staged_on_rows devs selectedDisks ua \<and> bare_disks_kept devs ua"
  proof (induction rule: rtranclp_induct)
    case base
    show ?case by (rule initial_invariant)
  next
    case (step y z)
    then show ?case
      using ui_step_invariant [OF assms(1)] by blast
  qed
  then have rows: "\<forall>d acts. map_of ua d = Some acts \<and>
        \<not> (\<exists>level \<le> 1. device_row devs selectedDisks d level) \<longrightarrow> acts = []"
    and bare: "\<forall>d dev. map_of devs d = Some dev \<and> type_v dev = ''disk'' \<and> children_v dev = [] \<longrightarrow>
        \<not> has_remove ua d"
    unfolding staged_on_rows_def bare_disks_kept_def by blast+
  have deep: "\<forall>dev level isDeviceShrinkable.
      1 < level \<longrightarrow> DeviceActions dev level ua isDeviceShrinkable = Inr None"
    by (simp add: DeviceActions_def)
  have target: "\<forall>ua'. ui_step devs selectedDisks ua ua' \<longrightarrow>
      (\<exists>d level. level \<le> 1 \<and> device_row devs selectedDisks d level \<and>
         (\<forall>x. x \<noteq> d \<longrightarrow> map_of ua' x = map_of ua x))"
    using ui_step_target [OF assms(1)] by blast
  have button: "deleteControl c \<noteq> DeleteButton False"
    if "type_v dev = ''disk''" "children_v dev = []"
      "DeviceActions dev level ua isDeviceShrinkable = Inr (Some c)"
    for dev level isDeviceShrinkable c
    using delete_button_enabled [OF that(3)] that(1,2) by blast
  from deep target rows bare button show ?thesis
    by (intro conjI) blast+
qed

inductive_cases device_row_0E: "device_row devs sel d 0"

inductive_cases device_row_SucE: "device_row devs sel c (Suc l)"

lemma device_row_0: "device_row devs sel d 0 \<longleftrightarrow> d \<in> set sel"
  by (auto elim: device_row_0E intro: row_disk)

lemma device_row_Suc:
  "device_row devs sel c (Suc l) \<longleftrightarrow>
     (\<exists>d dev. device_row devs sel d l \<and> map_of devs d = Some dev \<and> c \<in> set (children_v dev))"
proof
  assume "device_row devs sel c (Suc l)"
  then show "\<exists>d dev. device_row devs sel d l \<and> map_of devs d = Some dev \<and> c \<in> set (children_v dev)"
    by (rule device_row_SucE) blast
next
  assume "\<exists>d dev. device_row devs sel d l \<and> map_of devs d = Some dev \<and> c \<in> set (children_v dev)"
  then obtain d dev where "device_row devs sel d l" "map_of devs d = Some dev"
    "c \<in> set (children_v dev)"
    by blast
  then show "device_row devs sel c (Suc l)"
    by (rule row_child)
qed

lemma lvm_vg0_deep: "\<not> (\<exists>level \<le> 1. device_row lvm_devices [''sdc''] ''vg0'' level)"
proof
  assume "\<exists>level \<le> 1. device_row lvm_devices [''sdc''] ''vg0'' level"
  then obtain level where "level \<le> 1" and row: "device_row lvm_devices [''sdc''] ''vg0'' level"
    by blast
  then have "level = 0 \<or> level = Suc 0"
    by auto
  then show False
  proof
    assume "level = 0"
    with row show False by (simp add: device_row_0)
  next
    assume "level = Suc 0"
    with row obtain d dev where "d \<in> set [''sdc'']" "map_of lvm_devices d = Some dev"
      "''vg0'' \<in> set (children_v dev)"
      by (auto simp: device_row_Suc device_row_0)
    then show False
      by (auto simp: lvm_defs)
  qed
qed

lemma lvm_step_sdc1:
  "ui_step lvm_devices [''sdc'']
     [(''sdc'', []), (''sdc1'', []), (''sdd'', []), (''vg0'', [])]
     [(''sdc'', []), (''sdc1'', [remove_action]), (''sdd'', []), (''vg0'', [])]"
proof (rule click_delete [where disk = "''sdc1''" and level = 1 and dev = sdc1
      and isDeviceShrinkable = None])
  have "device_row lvm_devices [''sdc''] ''sdc1'' (Suc 0)"
    by (simp add: device_row_Suc device_row_0 lvm_defs)
  then show "device_row lvm_devices [''sdc''] ''sdc1'' 1"
    by simp
  show "map_of lvm_devices ''sdc1'' = Some sdc1"
    by (simp add: lvm_devices_def)
  show "DeviceActions sdc1 1 [(''sdc'', []), (''sdc1'', []), (''sdd'', []), (''vg0'', [])] None =
      Inr (Some \<lparr>shrinkControl = ShrinkButton True, deleteControl = DeleteButton False,
                  undoButton = False\<rparr>)"
    by (simp add: control_defs lvm_defs)
  show "deleteControl \<lparr>shrinkControl = ShrinkButton True, deleteControl = DeleteButton False,
                  undoButton = False\<rparr> = DeleteButton False"
    by simp
  show "onAction [(''sdc'', []), (''sdc1'', []), (''sdd'', []), (''vg0'', [])] (name_v sdc1)
      Remove EmptyString =
      Inr [(''sdc'', []), (''sdc1'', [remove_action]), (''sdd'', []), (''vg0'', [])]"
    by (simp add: onAction_def lvm_defs)
qed

lemma lvm_row_vg0_deep: "device_row lvm_devices [''sdc'', ''sdd''] ''vg0'' 2"
proof -
  have "device_row lvm_devices [''sdc'', ''sdd''] ''sdc'' 0"
    by (rule row_disk) simp
  moreover have "map_of lvm_devices ''sdc'' = Some sdc" and "''sdc1'' \<in> set (children_v sdc)"
    by (simp_all add: lvm_defs)
  ultimately have "device_row lvm_devices [''sdc'', ''sdd''] ''sdc1'' (Suc 0)"
    by (rule row_child)
  moreover have "map_of lvm_devices ''sdc1'' = Some sdc1" and "''vg0'' \<in> set (children_v sdc1)"
    by (simp_all add: lvm_defs)
  ultimately have "device_row lvm_devices [''sdc'', ''sdd''] ''vg0'' (Suc (Suc 0))"
    by (rule row_child)
  then show ?thesis
    by (simp add: numeral_2_eq_2)
qed

text \<open>
  In \<^verbatim>\<open>lvm_devices\<close> with both disks selected, the volume group \<^verbatim>\<open>vg0\<close> is nested two
  levels below \<^verbatim>\<open>sdc\<close> (under its partition \<^verbatim>\<open>sdc1\<close>) and is also a child of the disk
  \<^verbatim>\<open>sdd\<close>. One click on the delete button of its row at level 1 stages a remove action
  for it: a device nested two levels below a selected disk with a sequence that is
  not empty.
\<close>

theorem deep_device_staged_counterexample:
  "wf_devices lvm_devices \<and>
   device_row lvm_devices [''sdc'', ''sdd''] ''vg0'' 2 \<and>
   ui_reachable lvm_devices [''sdc'', ''sdd'']
     [(''sdc'', []), (''sdc1'', []), (''sdd'', []), (''vg0'', [remove_action])] \<and>
   map_of [(''sdc'', []), (''sdc1'', []), (''sdd'', []), (''vg0'', [remove_action])] ''vg0'' =
     Some [remove_action] \<and>
   [remove_action] \<noteq> []"
proof -
  let ?ua = "[(''sdc'', []), (''sdc1'', []), (''sdd'', []), (''vg0'', [remove_action])]"
  have wf: "wf_devices lvm_devices"
    by (simp add: wf_devices_def lvm_defs)
  have "(ui_step lvm_devices [''sdc'', ''sdd''])\<^sup>*\<^sup>*
      [(''sdc'', []), (''sdc1'', []), (''sdd'', []), (''vg0'', [])] ?ua"
    using lvm_step_vg0 by (rule r_into_rtranclp)
  then have reach: "ui_reachable lvm_devices [''sdc'', ''sdd''] ?ua"
    by (simp only: ui_reachable_def lvm_initial)
  have m: "map_of ?ua ''vg0'' = Some [remove_action]"
    by simp
  from wf lvm_row_vg0_deep reach m show ?thesis
    by simp
qed

lemma lvm_step_undo_sdc1:
  "ui_step lvm_devices [''sdc'']
     [(''sdc'', []), (''sdc1'', [remove_action]), (''sdd'', []), (''vg0'', [])]
     [(''sdc'', []), (''sdc1'', []), (''sdd'', []), (''vg0'', [])]"
proof (rule click_undo [where disk = "''sdc1''" and level = 1 and dev = sdc1
      and isDeviceShrinkable = None])
  have "device_row lvm_devices [''sdc''] ''sdc1'' (Suc 0)"
    by (simp add: device_row_Suc device_row_0 lvm_defs)
  then show "device_row lvm_devices [''sdc''] ''sdc1'' 1"
    by simp
  show "map_of lvm_devices ''sdc1'' = Some sdc1"
    by (simp add: lvm_devices_def)
  show "DeviceActions sdc1 1 [(''sdc'', []), (''sdc1'', [remove_action]), (''sdd'', []), (''vg0'', [])] None =
      Inr (Some \<lparr>shrinkControl = NoShrink, deleteControl = DeleteText, undoButton = True\<rparr>)"
    by (simp add: control_defs lvm_defs)
  show "undoButton \<lparr>shrinkControl = NoShrink, deleteControl = DeleteText, undoButton = True\<rparr>"
    by simp
  show "onUndo [(''sdc'', []), (''sdc1'', [remove_action]), (''sdd'', []), (''vg0'', [])] (name_v sdc1) =
      Inr [(''sdc'', []), (''sdc1'', []), (''sdd'', []), (''vg0'', [])]"
    by (simp add: onUndo_def lvm_defs)
qed

lemma two_disks_step_sda1:
  "ui_step two_disks [''sda'', ''sdb'']
     [(''sda'', []), (''sda1'', []), (''sdb'', [])]
     [(''sda'', []), (''sda1'', [remove_action]), (''sdb'', [])]"
proof (rule click_delete [where disk = "''sda1''" and level = 1 and dev = sda1
      and isDeviceShrinkable = None])
  have "device_row two_disks [''sda'', ''sdb''] ''sda'' 0"
    by (rule row_disk) simp
  moreover have "map_of two_disks ''sda'' = Some sda" and "''sda1'' \<in> set (children_v sda)"
    by (simp_all add: two_disks_def sda_def)
  ultimately have "device_row two_disks [''sda'', ''sdb''] ''sda1'' (Suc 0)"
    by (rule row_child)
  then show "device_row two_disks [''sda'', ''sdb''] ''sda1'' 1"
    by simp
  show "map_of two_disks ''sda1'' = Some sda1"
    by (simp add: two_disks_def)
  show "DeviceActions sda1 1 [(''sda'', []), (''sda1'', []), (''sdb'', [])] None =
      Inr (Some \<lparr>shrinkControl = ShrinkButton True, deleteControl = DeleteButton False,
                  undoButton = False\<rparr>)"
    by (simp add: control_defs scenario_defs)
  show "deleteControl \<lparr>shrinkControl = ShrinkButton True, deleteControl = DeleteButton False,
                  undoButton = False\<rparr> = DeleteButton False"
    by simp
  show "onAction [(''sda'', []), (''sda1'', []), (''sdb'', [])] (name_v sda1) Remove EmptyString =
      Inr [(''sda'', []), (''sda1'', [remove_action]), (''sdb'', [])]"
    by (simp add: onAction_def scenario_defs)
qed

text \<open>
  The amended statement at two states reached by one click: \<^verbatim>\<open>lvm_devices\<close> with only
  \<^verbatim>\<open>sdc\<close> selected, after the delete button of \<^verbatim>\<open>sdc1\<close>, where \<^verbatim>\<open>vg0\<close> has a row at
  level 2 only; and \<^verbatim>\<open>two_disks\<close> with both disks selected, after the delete button of
  \<^verbatim>\<open>sda1\<close>, where \<^verbatim>\<open>sdb\<close> is a disk without children.
\<close>

theorem staged_only_on_rows_0_and_1_witness:
  "wf_devices lvm_devices \<and>
   ui_reachable lvm_devices [''sdc'']
     [(''sdc'', []), (''sdc1'', [remove_action]), (''sdd'', []), (''vg0'', [])] \<and>
   (1 :: nat) < 2 \<and>
   DeviceActions vg0 2 [(''sdc'', []), (''sdc1'', [remove_action]), (''sdd'', []), (''vg0'', [])] None =
     Inr None \<and>
   ui_step lvm_devices [''sdc'']
     [(''sdc'', []), (''sdc1'', [remove_action]), (''sdd'', []), (''vg0'', [])]
     [(''sdc'', []), (''sdc1'', []), (''sdd'', []), (''vg0'', [])] \<and>
   (\<exists>d level. level \<le> 1 \<and> device_row lvm_devices [''sdc''] d level \<and>
      (\<forall>x. x \<noteq> d \<longrightarrow>
         map_of [(''sdc'', []), (''sdc1'', []), (''sdd'', []), (''vg0'', [])] x =
         map_of [(''sdc'', []), (''sdc1'', [remove_action]), (''sdd'', []), (''vg0'', [])] x)) \<and>
   map_of [(''sdc'', []), (''sdc1'', [remove_action]), (''sdd'', []), (''vg0'', [])] ''vg0'' = Some [] \<and>
   \<not> (\<exists>level \<le> 1. device_row lvm_devices [''sdc''] ''vg0'' level) \<and>
   wf_devices two_disks \<and>
   ui_reachable two_disks [''sda'', ''sdb'']
     [(''sda'', []), (''sda1'', [remove_action]), (''sdb'', [])] \<and>
   map_of two_disks ''sdb'' = Some sdb \<and> type_v sdb = ''disk'' \<and> children_v sdb = [] \<and>
   \<not> has_remove [(''sda'', []), (''sda1'', [remove_action]), (''sdb'', [])] ''sdb'' \<and>
   DeviceActions sdb 0 [(''sda'', []), (''sda1'', [remove_action]), (''sdb'', [])] None =
     Inr (Some \<lparr>shrinkControl = NoShrink, deleteControl = DeleteButton True, undoButton = False\<rparr>) \<and>
   deleteControl \<lparr>shrinkControl = NoShrink, deleteControl = DeleteButton True, undoButton = False\<rparr>
     \<noteq> DeleteButton False"
proof -
  let ?ua = "[(''sdc'', []), (''sdc1'', [remove_action]), (''sdd'', []), (''vg0'', [])]"
  let ?ub = "[(''sda'', []), (''sda1'', [remove_action]), (''sdb'', [])]"
  let ?c = "\<lparr>shrinkControl = NoShrink, deleteControl = DeleteButton True, undoButton = False\<rparr>"
  have wf: "wf_devices lvm_devices"
    by (simp add: wf_devices_def lvm_defs)
  have "(ui_step lvm_devices [''sdc''])\<^sup>*\<^sup>*
      [(''sdc'', []), (''sdc1'', []), (''sdd'', []), (''vg0'', [])] ?ua"
    using lvm_step_sdc1 by (rule r_into_rtranclp)
  then have reach: "ui_reachable lvm_devices [''sdc''] ?ua"
    by (simp only: ui_reachable_def lvm_initial)
  note t = staged_only_on_rows_0_and_1 [OF wf reach]
  have lv: "(1 :: nat) < 2"
    by simp
  with t have none: "DeviceActions vg0 2 ?ua None = Inr None"
    by blast
  from t lvm_step_undo_sdc1
  have target: "\<exists>d level. level \<le> 1 \<and> device_row lvm_devices [''sdc''] d level \<and>
      (\<forall>x. x \<noteq> d \<longrightarrow>
         map_of [(''sdc'', []), (''sdc1'', []), (''sdd'', []), (''vg0'', [])] x = map_of ?ua x)"
    by blast
  have m: "map_of ?ua ''vg0'' = Some []"
    by simp
  have wf2: "wf_devices two_disks"
    by (simp add: wf_devices_def two_disks_def sda_def sda1_def sdb_def)
  have init2: "initialUnappliedActions two_disks = [(''sda'', []), (''sda1'', []), (''sdb'', [])]"
    by (simp add: initialUnappliedActions_def two_disks_def)
  have "(ui_step two_disks [''sda'', ''sdb''])\<^sup>*\<^sup>* [(''sda'', []), (''sda1'', []), (''sdb'', [])] ?ub"
    using two_disks_step_sda1 by (rule r_into_rtranclp)
  then have reach2: "ui_reachable two_disks [''sda'', ''sdb''] ?ub"
    by (simp only: ui_reachable_def init2)
  note t2 = staged_only_on_rows_0_and_1 [OF wf2 reach2]
  have sdb: "map_of two_disks ''sdb'' = Some sdb" "type_v sdb = ''disk''" "children_v sdb = []"
    by (simp_all add: two_disks_def sdb_def)
  have da: "DeviceActions sdb 0 ?ub None = Inr (Some ?c)"
    by (simp add: control_defs sdb_def)
  from t2 sdb have kept: "\<not> has_remove ?ub ''sdb''"
    by blast
  from t2 sdb da have off: "deleteControl ?c \<noteq> DeleteButton False"
    by blast
  from wf reach lv none lvm_step_undo_sdc1 target m lvm_vg0_deep wf2 reach2 sdb kept da off
  show ?thesis
    by (intro conjI)
qed

section \<open>Shrink accounting in the states of a session\<close>

















section \<open>Equations that evaluate the inductive predicates\<close>

text \<open>
  The derived state is recomputed from the devices and the staged actions at every
  read; these equations compute it, and the rows, on a concrete snapshot.
\<close>

lemma effectively_removed_code [code]:
  "effectively_removed devs ua d \<longleftrightarrow> has_remove ua d \<or> ancestor_removed devs ua d"
  by (rule effectively_removed_iff)

lemma device_row_code [code]:
  "device_row devs sel c level \<longleftrightarrow>
     (case level of
        0 \<Rightarrow> c \<in> set sel
      | Suc l \<Rightarrow> list_ex (\<lambda>(d, dev). device_row devs sel d l \<and> map_of devs d = Some dev \<and>
                                  c \<in> set (children_v dev)) devs)"
proof (cases level)
  case 0
  then show ?thesis
    by (simp add: device_row_0)
next
  case (Suc l)
  have "(\<exists>d dev. device_row devs sel d l \<and> map_of devs d = Some dev \<and> c \<in> set (children_v dev)) \<longleftrightarrow>
      list_ex (\<lambda>(d, dev). device_row devs sel d l \<and> map_of devs d = Some dev \<and>
                                  c \<in> set (children_v dev)) devs"
  proof
    assume "\<exists>d dev. device_row devs sel d l \<and> map_of devs d = Some dev \<and> c \<in> set (children_v dev)"
    then obtain d dev where h: "device_row devs sel d l" "map_of devs d = Some dev"
      "c \<in> set (children_v dev)"
      by blast
    then have "(d, dev) \<in> set devs"
      by (simp add: map_of_SomeD)
    with h show "list_ex (\<lambda>(d, dev). device_row devs sel d l \<and> map_of devs d = Some dev \<and>
                                  c \<in> set (children_v dev)) devs"
      unfolding list_ex_iff by (intro bexI [of _ "(d, dev)"]) simp_all
  next
    assume "list_ex (\<lambda>(d, dev). device_row devs sel d l \<and> map_of devs d = Some dev \<and>
                                  c \<in> set (children_v dev)) devs"
    then obtain entry where e: "entry \<in> set devs"
      "case entry of (d, dev) \<Rightarrow> device_row devs sel d l \<and> map_of devs d = Some dev \<and>
                                  c \<in> set (children_v dev)"
      unfolding list_ex_iff by blast
    obtain d dev where "entry = (d, dev)"
      by (cases entry)
    with e(2) have "device_row devs sel d l \<and> map_of devs d = Some dev \<and> c \<in> set (children_v dev)"
      by simp
    then show "\<exists>d dev. device_row devs sel d l \<and> map_of devs d = Some dev \<and> c \<in> set (children_v dev)"
      by blast
  qed
  with Suc show ?thesis
    by (simp add: device_row_Suc)
qed

end
